theory Spec2Isabelle
  imports Main
begin

section \<open>Messages, log records and validation state\<close>

text \<open>
  The data of \<^verbatim>\<open>db.js\<close>. Identities and feed ids are strings. A JavaScript value
  that came out of \<^verbatim>\<open>JSON.parse\<close> or a decoder is a JSON value; \<open>JNull\<close> stands
  for \<^verbatim>\<open>null\<close> and for \<^verbatim>\<open>undefined\<close>, and numbers are integers. A message's
  \<^verbatim>\<open>content\<close> is such a value: a string when it is a boxed ciphertext (the test
  \<^verbatim>\<open>typeof (msg.content) === 'string'\<close>), an object otherwise.
\<close>

type_synonym ident = string
type_synonym feedid = string

datatype json = JNull | JBool bool | JNum int | JStr string | JArr "json list"
  | JObj "(string \<times> json) list"

type_synonym content = json

text \<open>
  What \<^verbatim>\<open>if (x)\<close> tests: \<^verbatim>\<open>null\<close>, \<^verbatim>\<open>undefined\<close>, \<^verbatim>\<open>false\<close>,
  \<^verbatim>\<open>0\<close> and the empty string are falsy, every other value is truthy.
\<close>

fun truthy :: "json \<Rightarrow> bool" where
  "truthy JNull = False"
| "truthy (JBool b) = b"
| "truthy (JNum n) = (n \<noteq> 0)"
| "truthy (JStr s) = (s \<noteq> [])"
| "truthy (JArr xs) = True"
| "truthy (JObj fs) = True"

text \<open>\<^verbatim>\<open>msg.meta = { private: "true", original: { content: cyphertext } }\<close>\<close>

record msg_meta =
  meta_private :: string
  meta_original_content :: string

record msg =
  author :: feedid
  sequence :: int
  previous :: "ident option"
  timestamp :: int
  content :: content
  signature :: string
  meta :: "msg_meta option"

text \<open>
  A stored record \<^verbatim>\<open>{ key, value }\<close>: \<^verbatim>\<open>data.value\<close> in \<^verbatim>\<open>get\<close> and
  \<^verbatim>\<open>add\<close>, \<^verbatim>\<open>msg.key\<close> in \<^verbatim>\<open>deleteFeed\<close>. The receive time the log stamps on a
  record is wall-clock time and is left out.
\<close>

record kvt =
  key :: ident
  kvalue :: msg

datatype error =
    SequenceGap
  | PreviousMismatch
  | TimestampRegression
  | BadSignature
  | MalformedMessage
  | NotFound
  | IoFailure
  | TypeError
  | RangeError
  | Error string

text \<open>
  The per-author entry that \<^verbatim>\<open>db.js\<close> restores into \<^verbatim>\<open>state.feeds[k]\<close>:
  \<^verbatim>\<open>{ id, timestamp, sequence, queue: [] }\<close>.
\<close>

record feedstate =
  fid :: ident
  ftimestamp :: int
  fsequence :: int
  fqueue :: "kvt list"

text \<open>
  The validation state \<^verbatim>\<open>state\<close>: \<^verbatim>\<open>state.feeds\<close>, \<^verbatim>\<open>state.error\<close> (read after
  every validation call) and \<^verbatim>\<open>state.queue\<close>.
\<close>

record vstate =
  feeds :: "feedid \<rightharpoonup> feedstate"
  error :: "error option"
  queue :: "kvt list"

text \<open>
  What a callback of \<^verbatim>\<open>add\<close> receives as data: \<^verbatim>\<open>data.value\<close> of a record that
  was already stored, or whatever \<^verbatim>\<open>log.add\<close> hands to the callback (the stored
  record).
\<close>

datatype answer = Value msg | Stored kvt

section \<open>The collaborators of \<^verbatim>\<open>db.js\<close>\<close>

text \<open>
  The functions \<^verbatim>\<open>db.js\<close> imports from other packages are parameters:
  \<^verbatim>\<open>hash\<close> (ssb-keys), \<^verbatim>\<open>JSON.stringify\<close>, \<^verbatim>\<open>keys.unbox\<close> with
  \<^verbatim>\<open>config.keys.private\<close>, and ssb-validate's \<^verbatim>\<open>append\<close> and \<^verbatim>\<open>appendOOO\<close>.
  \<^verbatim>\<open>keys.unbox\<close> yields the parsed plaintext, or \<^verbatim>\<open>undefined\<close> (\<open>JNull\<close>) when
  the key does not open the content. A validation function is given the state and
  the message; \<open>Inl ex\<close> says it threw \<open>ex\<close> and left the state object as it was,
  \<open>Inr s\<close> says it returned the state object, which now holds \<open>s\<close> (\<^verbatim>\<open>db.js\<close>
  reads its \<^verbatim>\<open>error\<close> slot next).
\<close>

record env =
  hash :: "string \<Rightarrow> string"
  stringify :: "msg \<Rightarrow> string"
  unbox :: "string \<Rightarrow> string \<Rightarrow> json"
  keys_private :: string
  validate_append :: "vstate \<Rightarrow> string option \<Rightarrow> msg \<Rightarrow> error + vstate"
  validate_appendOOO :: "vstate \<Rightarrow> string option \<Rightarrow> msg \<Rightarrow> error + vstate"

text \<open>
  The database: the append-only log (a tombstoned record is \<open>None\<close>), the base index
  \<^verbatim>\<open>fullIndex\<close> (its key-to-sequence table, its watermark \<^verbatim>\<open>fullIndex.seq.value\<close> and
  its latest-per-author table), the validation state, and the callbacks of \<^verbatim>\<open>getSync\<close>
  that are subscribed to \<^verbatim>\<open>fullIndex.seq\<close>, each standing for the read of one identity.
\<close>

record db =
  log :: "kvt option list"
  index_keys :: "ident \<rightharpoonup> nat"
  index_seq :: nat
  latest :: "feedid \<rightharpoonup> feedstate"
  state :: vstate
  listeners :: "ident list"

subsection \<open>The log and the base index\<close>

text \<open>
  Modelled from the spec: \<^verbatim>\<open>./log\<close> is not among the sources. The log is a
  sequence-numbered record store with \<^verbatim>\<open>add\<close>, \<^verbatim>\<open>del(seq)\<close> and an observable last
  sequence \<^verbatim>\<open>log.since.value\<close>. Sequences are positions in the list; the last sequence of
  the model is the number of records. \<^verbatim>\<open>add\<close> appends the record and answers with it;
  \<^verbatim>\<open>del\<close> tombstones the record at a sequence and keeps its slot.
\<close>

definition since :: "db \<Rightarrow> nat" where
  "since d = length (log d)"

definition log_add :: "db \<Rightarrow> ident \<Rightarrow> msg \<Rightarrow> db \<times> (error + answer)" where
  "log_add d i m =
     (let data = \<lparr>key = i, kvalue = m\<rparr>
      in (d\<lparr>log := log d @ [Some data]\<rparr>, Inr (Stored data)))"

definition log_del :: "db \<Rightarrow> nat \<Rightarrow> db \<times> error option" where
  "log_del d s =
     (if s < length (log d) then (d\<lparr>log := (log d)[s := None]\<rparr>, None)
      else (d, Some IoFailure))"

text \<open>
  Modelled from the spec: \<^verbatim>\<open>./indexes/full-scan\<close> is not among the sources. The base
  index resolves an identity to a log sequence through the table it has built from the
  records up to its watermark. \<^verbatim>\<open>getDataFromKey\<close> answers with the record at that
  sequence; an unresolved identity and a tombstoned record are reported absent.
  \<^verbatim>\<open>keyToSeq\<close> answers with the sequence, or with no sequence when the identity is
  unresolved. Both hand the callback a pair \<^verbatim>\<open>(err, data)\<close>.
\<close>

definition getDataFromKey :: "db \<Rightarrow> ident \<Rightarrow> error option \<times> kvt option" where
  "getDataFromKey d i =
     (case index_keys d i of
        None \<Rightarrow> (Some NotFound, None)
      | Some s \<Rightarrow>
          (if s < length (log d)
           then (case log d ! s of
                   None \<Rightarrow> (Some NotFound, None)
                 | Some r \<Rightarrow> (None, Some r))
           else (Some NotFound, None)))"

definition keyToSeq :: "db \<Rightarrow> ident \<Rightarrow> error option \<times> nat option" where
  "keyToSeq d i = (None, index_keys d i)"

definition removeFeedFromLatest :: "db \<Rightarrow> feedid \<Rightarrow> db" where
  "removeFeedFromLatest d f = d\<lparr>latest := (latest d)(f := None)\<rparr>"

section \<open>\<^verbatim>\<open>db.js\<close>\<close>

definition getId :: "env \<Rightarrow> msg \<Rightarrow> ident" where
  "getId E m = CHR ''%'' # hash E (stringify E m)"

text \<open>\<^verbatim>\<open>get\<close>: \<^verbatim>\<open>if (data) cb(null, data.value) else cb(err)\<close>.\<close>

definition get :: "db \<Rightarrow> ident \<Rightarrow> error option + msg" where
  "get d i =
     (case getDataFromKey d i of
        (err, Some data) \<Rightarrow> Inr (kvalue data)
      | (err, None) \<Rightarrow> Inl err)"

text \<open>
  \<^verbatim>\<open>add\<close>: the identity is computed from the message as given; a record the base index
  resolves is answered with its value; otherwise a string content is given to
  \<^verbatim>\<open>keys.unbox\<close>, and when the result is truthy (\<^verbatim>\<open>if (decrypted)\<close>) it replaces
  the content, the ciphertext kept under \<^verbatim>\<open>meta\<close>; the message goes to
  \<^verbatim>\<open>log.add\<close>.
\<close>

definition add :: "env \<Rightarrow> db \<Rightarrow> msg \<Rightarrow> db \<times> (error + answer)" where
  "add E d m =
     (let i = getId E m in
      case getDataFromKey d i of
        (err, Some data) \<Rightarrow> (d, Inr (Value (kvalue data)))
      | (err, None) \<Rightarrow>
          (case content m of
             JStr cyphertext \<Rightarrow>
               (let decrypted = unbox E cyphertext (keys_private E) in
                if truthy decrypted
                then log_add d i
                       (m\<lparr>content := decrypted,
                          meta := Some \<lparr>meta_private = ''true'',
                                        meta_original_content = cyphertext\<rparr>\<rparr>)
                else log_add d i m)
           | x \<Rightarrow> log_add d i m))"

text \<open>
  \<^verbatim>\<open>del\<close>: the callback given to \<^verbatim>\<open>keyToSeq\<close> passes an error on, reports
  \<^verbatim>\<open>new Error('seq is null!')\<close> when there is no sequence, and otherwise calls
  \<^verbatim>\<open>log.del(seq, cb)\<close>.
\<close>

definition del_cb :: "db \<Rightarrow> error option \<Rightarrow> nat option \<Rightarrow> db \<times> error option" where
  "del_cb d err seq =
     (case err of
        Some e \<Rightarrow> (d, Some e)
      | None \<Rightarrow>
          (case seq of
             None \<Rightarrow> (d, Some (Error ''seq is null!''))
           | Some s \<Rightarrow> log_del d s))"

definition del :: "db \<Rightarrow> ident \<Rightarrow> db \<times> error option" where
  "del d k = (case keyToSeq d k of (err, seq) \<Rightarrow> del_cb d err seq)"

text \<open>
  Modelled from the spec: jitdb is not among the sources. The query of
  \<^verbatim>\<open>deleteFeed\<close> enumerates every record of the log that belongs to the author.
\<close>

definition query_author :: "db \<Rightarrow> feedid \<Rightarrow> kvt list" where
  "query_author d f =
     concat (map (\<lambda>x. case x of
                          None \<Rightarrow> []
                        | Some r \<Rightarrow> if author (kvalue r) = f then [r] else [])
                 (log d))"

text \<open>
  \<^verbatim>\<open>push(push.values(results), push.asyncMap(del), push.collect(cb))\<close>: the keys are
  deleted one after the other, and the first error ends the stream and is what
  \<^verbatim>\<open>collect\<close> hands to its callback.
\<close>

fun del_each :: "db \<Rightarrow> ident list \<Rightarrow> db \<times> error option" where
  "del_each d [] = (d, None)"
| "del_each d (k # ks) =
     (case del d k of
        (d', Some err) \<Rightarrow> (d', Some err)
      | (d', None) \<Rightarrow> del_each d' ks)"

definition deleteFeed :: "db \<Rightarrow> feedid \<Rightarrow> db \<times> error option" where
  "deleteFeed d feedId =
     (let results = query_author d feedId in
      case del_each d (map key results) of
        (d', None) \<Rightarrow>
          (removeFeedFromLatest
             (d'\<lparr>state := (state d')\<lparr>feeds := (feeds (state d'))(feedId := None)\<rparr>\<rparr>)
             feedId,
           None)
      | (d', Some err) \<Rightarrow> (d', Some err))"

text \<open>
  Modelled from the spec: \<^verbatim>\<open>validate.initial()\<close> is ssb-validate's; it makes a fresh
  validation state that knows no feed and holds no error.
\<close>

definition initial :: vstate where
  "initial = \<lparr>feeds = Map.empty, error = None, queue = []\<rparr>"

definition hmac_key :: "string option" where
  "hmac_key = None"

text \<open>
  \<^verbatim>\<open>validateAndAddOOO\<close> declares a \<^verbatim>\<open>state\<close> of its own, which hides the shared one.
\<close>

definition validateAndAddOOO :: "env \<Rightarrow> db \<Rightarrow> msg \<Rightarrow> db \<times> (error + answer)" where
  "validateAndAddOOO E d m =
     (case validate_appendOOO E initial hmac_key m of
        Inl ex \<Rightarrow> (d, Inl ex)
      | Inr s \<Rightarrow>
          (case error s of
             Some e \<Rightarrow> (d, Inl e)
           | None \<Rightarrow> add E d m))"

text \<open>
  \<^verbatim>\<open>validateAndAdd\<close>: \<^verbatim>\<open>msg.author in state.feeds\<close> chooses the validation; the shared
  \<^verbatim>\<open>state\<close> is assigned what the validation returns before \<^verbatim>\<open>state.error\<close> is read;
  an exception leaves the assignment undone.
\<close>

definition validateAndAdd :: "env \<Rightarrow> db \<Rightarrow> msg \<Rightarrow> db \<times> (error + answer)" where
  "validateAndAdd E d m =
     (let knownAuthor = (feeds (state d) (author m) \<noteq> None) in
      case (if \<not> knownAuthor then validate_appendOOO E (state d) hmac_key m
            else validate_append E (state d) hmac_key m) of
        Inl ex \<Rightarrow> (d, Inl ex)
      | Inr s \<Rightarrow>
          (case error s of
             Some e \<Rightarrow> (d\<lparr>state := s\<rparr>, Inl e)
           | None \<Rightarrow> add E (d\<lparr>state := s\<rparr>) m))"

subsection \<open>The consistency barrier\<close>

text \<open>
  \<^verbatim>\<open>getSync\<close> reads at once when \<^verbatim>\<open>fullIndex.seq.value === log.since.value\<close>;
  otherwise it subscribes a listener to \<^verbatim>\<open>fullIndex.seq\<close> and answers later (\<open>None\<close>
  now). The listener, run at a change of the watermark, checks the same equality; when it
  holds it removes itself and reads (\<open>Some\<close> of the answer), otherwise it stays.
  A listener that is also called when it subscribes finds the inequality that made
  \<^verbatim>\<open>getSync\<close> subscribe it, and does nothing then.
\<close>

definition getSync :: "db \<Rightarrow> ident \<Rightarrow> db \<times> (error option + msg) option" where
  "getSync d i =
     (if index_seq d = since d then (d, Some (get d i))
      else (d\<lparr>listeners := listeners d @ [i]\<rparr>, None))"

definition getSync_listener :: "db \<Rightarrow> ident \<Rightarrow> (error option + msg) option" where
  "getSync_listener d i =
     (if index_seq d = since d then Some (get d i) else None)"

text \<open>
  Modelled from the spec: the indexer is not among the sources. It consumes the log in
  ascending order, one record past its watermark at a time: a live record enters the
  key-to-sequence table, a tombstoned one is skipped, the watermark moves on and the
  change is announced to every subscribed listener. The answers the listeners give at
  this change are returned with the database. How the indexer fills its latest-per-author
  table is left open: \<^verbatim>\<open>db.js\<close> only removes an entry from it.
\<close>

definition index_record :: "db \<Rightarrow> db" where
  "index_record d =
     (let s = index_seq d in
      d\<lparr>index_keys := (case log d ! s of
                          Some r \<Rightarrow> (index_keys d)(key r \<mapsto> s)
                        | None \<Rightarrow> index_keys d),
        index_seq := s + 1\<rparr>)"

definition seq_changed :: "db \<Rightarrow> db \<times> (ident \<times> (error option + msg)) list" where
  "seq_changed d =
     (d\<lparr>listeners := filter (\<lambda>i. getSync_listener d i = None) (listeners d)\<rparr>,
      concat (map (\<lambda>i. case getSync_listener d i of
                           None \<Rightarrow> []
                         | Some r \<Rightarrow> [(i, r)])
                  (listeners d)))"

definition index_step :: "db \<Rightarrow> db \<times> (ident \<times> (error option + msg)) list" where
  "index_step d =
     (if index_seq d < length (log d) then seq_changed (index_record d) else (d, []))"

text \<open>
  What may happen between a call of \<^verbatim>\<open>getSync\<close> and its answer: the indexer takes a
  step, or another message is added. \<open>run\<close> collects the answers of the listeners.
\<close>

datatype event = Indexed | Added msg

fun run :: "env \<Rightarrow> db \<Rightarrow> event list \<Rightarrow> db \<times> (ident \<times> (error option + msg)) list" where
  "run E d [] = (d, [])"
| "run E d (Indexed # es) =
     (case index_step d of
        (d1, out) \<Rightarrow> (case run E d1 es of (d2, outs) \<Rightarrow> (d2, out @ outs)))"
| "run E d (Added m # es) = run E (fst (add E d m)) es"

section \<open>The feed validation engine and the transaction, from the spec\<close>

text \<open>
  Modelled from the spec: ssb-validate is not among the sources. The strict append of a
  message whose author is known is valid iff its sequence is the latest sequence plus
  one, its \<^verbatim>\<open>previous\<close> is the latest identity, its timestamp is not below the latest
  timestamp, and its signature verifies; the four failures are told apart, checked in
  this order.
\<close>

definition append_check :: "(msg \<Rightarrow> bool) \<Rightarrow> feedstate \<Rightarrow> msg \<Rightarrow> error option" where
  "append_check verify fs m =
     (if sequence m \<noteq> fsequence fs + 1 then Some SequenceGap
      else if previous m \<noteq> Some (fid fs) then Some PreviousMismatch
      else if timestamp m < ftimestamp fs then Some TimestampRegression
      else if \<not> verify m then Some BadSignature
      else None)"

text \<open>
  Modelled from the spec: the first message of a feed has sequence 1 and no
  \<^verbatim>\<open>previous\<close>; a feed state is created by the first validated append.
\<close>

definition first_check :: "(msg \<Rightarrow> bool) \<Rightarrow> msg \<Rightarrow> error option" where
  "first_check verify m =
     (if sequence m \<noteq> 1 then Some SequenceGap
      else if previous m \<noteq> None then Some PreviousMismatch
      else if \<not> verify m then Some BadSignature
      else None)"

text \<open>
  Modelled from the spec: \<^verbatim>\<open>append\<close>. On success the feed state advances to the
  candidate. On failure the error is the result and the state is left unmodified: the
  call throws.
\<close>

definition append_spec ::
  "(string option \<Rightarrow> msg \<Rightarrow> bool) \<Rightarrow> (msg \<Rightarrow> ident) \<Rightarrow>
   vstate \<Rightarrow> string option \<Rightarrow> msg \<Rightarrow> error + vstate" where
  "append_spec verify ident s hk m =
     (case feeds s (author m) of
        Some fs \<Rightarrow>
          (case append_check (verify hk) fs m of
             Some e \<Rightarrow> Inl e
           | None \<Rightarrow>
               Inr (s\<lparr>feeds := (feeds s)(author m \<mapsto>
                              \<lparr>fid = ident m, ftimestamp = timestamp m,
                               fsequence = sequence m, fqueue = fqueue fs\<rparr>)\<rparr>))
      | None \<Rightarrow>
          (case first_check (verify hk) m of
             Some e \<Rightarrow> Inl e
           | None \<Rightarrow>
               Inr (s\<lparr>feeds := (feeds s)(author m \<mapsto>
                              \<lparr>fid = ident m, ftimestamp = timestamp m,
                               fsequence = sequence m, fqueue = []\<rparr>)\<rparr>)))"

text \<open>
  Modelled from the spec: \<^verbatim>\<open>appendOOO\<close> verifies the signature and the internal
  well-formedness of the message only, with no check against the feed states. A message
  it admits makes its author known: the author's feed state is the candidate's identity,
  timestamp and sequence, whatever the sequence is. On failure it throws and the state is
  left unmodified.
\<close>

definition appendOOO_spec ::
  "(string option \<Rightarrow> msg \<Rightarrow> bool) \<Rightarrow> (msg \<Rightarrow> bool) \<Rightarrow> (msg \<Rightarrow> ident) \<Rightarrow>
   vstate \<Rightarrow> string option \<Rightarrow> msg \<Rightarrow> error + vstate" where
  "appendOOO_spec verify wellformed ident s hk m =
     (if \<not> wellformed m then Inl MalformedMessage
      else if \<not> verify hk m then Inl BadSignature
      else Inr (s\<lparr>feeds := (feeds s)(author m \<mapsto>
                       \<lparr>fid = ident m, ftimestamp = timestamp m,
                        fsequence = sequence m,
                        fqueue = (case feeds s (author m) of
                                    None \<Rightarrow> []
                                  | Some fs \<Rightarrow> fqueue fs)\<rparr>)\<rparr>))"

text \<open>
  Modelled from the spec: \<^verbatim>\<open>addTransaction\<close> is not in \<^verbatim>\<open>db.js\<close>. The ordered
  messages are validated one after the other against a scratch copy of the validation
  state, the out-of-order messages each on its own; only when every validation has
  succeeded are all records appended to the log and the scratch copy made the live
  state.
\<close>

fun validate_ordered :: "env \<Rightarrow> vstate \<Rightarrow> msg list \<Rightarrow> error + vstate" where
  "validate_ordered E s [] = Inr s"
| "validate_ordered E s (m # ms) =
     (case validate_append E s hmac_key m of
        Inl ex \<Rightarrow> Inl ex
      | Inr s' \<Rightarrow>
          (case error s' of
             Some e \<Rightarrow> Inl e
           | None \<Rightarrow> validate_ordered E s' ms))"

definition validate_one_ooo :: "env \<Rightarrow> msg \<Rightarrow> error option" where
  "validate_one_ooo E m =
     (case validate_appendOOO E initial hmac_key m of
        Inl ex \<Rightarrow> Some ex
      | Inr s \<Rightarrow> error s)"

fun validate_ooo :: "env \<Rightarrow> msg list \<Rightarrow> error option" where
  "validate_ooo E [] = None"
| "validate_ooo E (m # ms) =
     (case validate_one_ooo E m of
        Some e \<Rightarrow> Some e
      | None \<Rightarrow> validate_ooo E ms)"

definition to_record :: "env \<Rightarrow> msg \<Rightarrow> kvt" where
  "to_record E m = \<lparr>key = getId E m, kvalue = m\<rparr>"

definition addTransaction ::
  "env \<Rightarrow> db \<Rightarrow> msg list \<Rightarrow> msg list \<Rightarrow> db \<times> (error + kvt list)" where
  "addTransaction E d orderedMessages oooMessages =
     (case validate_ordered E (state d) orderedMessages of
        Inl e \<Rightarrow> (d, Inl e)
      | Inr scratch \<Rightarrow>
          (case validate_ooo E oooMessages of
             Some e \<Rightarrow> (d, Inl e)
           | None \<Rightarrow>
               (let records = map (to_record E) (orderedMessages @ oooMessages) in
                (d\<lparr>log := log d @ map Some records, state := scratch\<rparr>, Inr records))))"

text \<open>
  The strict validation of one message against a state fails with an error: it throws
  it, or returns a state whose error slot holds it.
\<close>

definition fails_at :: "env \<Rightarrow> vstate \<Rightarrow> msg \<Rightarrow> error \<Rightarrow> bool" where
  "fails_at E s m e =
     (case validate_append E s hmac_key m of
        Inl ex \<Rightarrow> ex = e
      | Inr s' \<Rightarrow> error s' = Some e)"

section \<open>The full-mentions index\<close>

text \<open>
  \<^verbatim>\<open>FullMentions.handleRecord\<close>. A record of the log stream has an \<^verbatim>\<open>offset\<close> and a
  \<^verbatim>\<open>value\<close>, a buffer, absent (\<^verbatim>\<open>null\<close> or \<^verbatim>\<open>undefined\<close>) for a deleted record;
  a buffer that is present is truthy, also when it is empty. The plugin holds
  \<^verbatim>\<open>this.offset.value\<close> and \<^verbatim>\<open>this.batch\<close>. The functions of bipf are parameters:
  each answers with a value (\<open>Inr\<close>) or raises an exception (\<open>Inl\<close>).
\<close>

type_synonym buffer = "nat list"

record bipf =
  seekKey :: "buffer \<Rightarrow> int \<Rightarrow> string \<Rightarrow> error + int"
  decode :: "buffer \<Rightarrow> int \<Rightarrow> error + json"

record log_record =
  offset :: int
  rec_value :: "buffer option"

record batch_op =
  op_type :: string
  op_key :: "string \<times> json"
  op_value :: int

record plugin =
  offset_value :: int
  batch :: "batch_op list"

definition bKey :: string where "bKey = ''key''"
definition bValue :: string where "bValue = ''value''"
definition bContent :: string where "bContent = ''content''"
definition bMentions :: string where "bMentions = ''mentions''"

text \<open>\<^verbatim>\<open>x.slice(1, 10)\<close>: of a string or an array; a \<^verbatim>\<open>TypeError\<close> otherwise.\<close>

fun slice_1_10 :: "json \<Rightarrow> error + json" where
  "slice_1_10 (JStr s) = Inr (JStr (take 9 (drop 1 s)))"
| "slice_1_10 (JArr xs) = Inr (JArr (take 9 (drop 1 xs)))"
| "slice_1_10 x = Inl TypeError"

text \<open>
  \<^verbatim>\<open>mention.link\<close>: a \<^verbatim>\<open>TypeError\<close> on \<^verbatim>\<open>null\<close> and \<^verbatim>\<open>undefined\<close>, the field of
  an object, and nothing that is a string on any other value.
\<close>

fun link :: "json \<Rightarrow> error + json" where
  "link JNull = Inl TypeError"
| "link (JObj fs) = Inr (case map_of fs ''link'' of None \<Rightarrow> JNull | Some v \<Rightarrow> v)"
| "link x = Inr JNull"

text \<open>
  The body of \<^verbatim>\<open>mentionsData.forEach\<close>: a put is pushed for a link that is a
  non-empty string starting with \<^verbatim>\<open>@\<close> or \<^verbatim>\<open>%\<close>. An exception ends the loop and
  keeps what was pushed before it.
\<close>

fun forEach_mention :: "plugin \<Rightarrow> json \<Rightarrow> int \<Rightarrow> json list \<Rightarrow> plugin \<times> error option" where
  "forEach_mention this shortKey seq [] = (this, None)"
| "forEach_mention this shortKey seq (mention # ms) =
     (case link mention of
        Inl e \<Rightarrow> (this, Some e)
      | Inr (JStr l) \<Rightarrow>
          (if l \<noteq> [] \<and> (hd l = CHR ''@'' \<or> hd l = CHR ''%'')
           then forEach_mention
                  (this\<lparr>batch := batch this @
                     [\<lparr>op_type = ''put'', op_key = (l, shortKey), op_value = seq\<rparr>]\<rparr>)
                  shortKey seq ms
           else forEach_mention this shortKey seq ms)
      | Inr x \<Rightarrow> forEach_mention this shortKey seq ms)"

text \<open>
  \<^verbatim>\<open>handleRecord\<close>: the two early returns, then the seeks and decodes in the order of
  the source; an exception of bipf leaves \<^verbatim>\<open>handleRecord\<close> at once.
\<close>

definition handleRecord ::
  "bipf \<Rightarrow> plugin \<Rightarrow> log_record \<Rightarrow> int \<Rightarrow> plugin \<times> error option" where
  "handleRecord B this record seq =
     (if offset record < offset_value this then (this, None)
      else case rec_value record of
        None \<Rightarrow> (this, None)
      | Some recBuffer \<Rightarrow>
          (case seekKey B recBuffer 0 bKey of
             Inl e \<Rightarrow> (this, Some e)
           | Inr pKey \<Rightarrow>
          (case seekKey B recBuffer 0 bValue of
             Inl e \<Rightarrow> (this, Some e)
           | Inr p1 \<Rightarrow>
          if p1 < 0 then (this, None)
          else
          (case seekKey B recBuffer p1 bContent of
             Inl e \<Rightarrow> (this, Some e)
           | Inr p2 \<Rightarrow>
          if p2 < 0 then (this, None)
          else
          (case seekKey B recBuffer p2 bMentions of
             Inl e \<Rightarrow> (this, Some e)
           | Inr p3 \<Rightarrow>
          if p3 < 0 then (this, None)
          else
          (case decode B recBuffer p3 of
             Inl e \<Rightarrow> (this, Some e)
           | Inr (JArr mentionsData) \<Rightarrow>
               (case decode B recBuffer pKey of
                  Inl e \<Rightarrow> (this, Some e)
                | Inr k \<Rightarrow>
                    (case slice_1_10 k of
                       Inl e \<Rightarrow> (this, Some e)
                     | Inr shortKey \<Rightarrow> forEach_mention this shortKey seq mentionsData))
           | Inr x \<Rightarrow> (this, None)))))))"

section \<open>Predicates used in the proofs\<close>

text \<open>
  An identity is resolved when the base index maps it to a live record of the log, and
  unindexed when a live record with that key lies at or past the watermark. It is
  readable when the watermark is within the log and one of the two holds: then the read
  succeeds once the index has caught up.
\<close>

definition resolved :: "db \<Rightarrow> ident \<Rightarrow> bool" where
  "resolved d i =
     (\<exists>q r. index_keys d i = Some q \<and> q < length (log d) \<and> log d ! q = Some r)"

definition unindexed :: "db \<Rightarrow> ident \<Rightarrow> bool" where
  "unindexed d i =
     (\<exists>p r. index_seq d \<le> p \<and> p < length (log d) \<and> log d ! p = Some r \<and> key r = i)"

definition readable :: "db \<Rightarrow> ident \<Rightarrow> bool" where
  "readable d i = (index_seq d \<le> length (log d) \<and> (resolved d i \<or> unindexed d i))"

section \<open>Concrete inputs\<close>

text \<open>
  A small environment and database on which the theorems below are run: signatures
  verify when they start with \<^verbatim>\<open>sig\<close>, the key opens the ciphertext
  \<^verbatim>\<open>boxed\<close> to an object and the ciphertext \<^verbatim>\<open>boxed-empty\<close> to the empty string and
  opens no other, and the validation functions are those of the spec.
\<close>

definition verify1 :: "string option \<Rightarrow> msg \<Rightarrow> bool" where
  "verify1 hk m = (take 3 (signature m) = ''sig'')"

definition env1 :: env where
  "env1 = \<lparr>hash = (\<lambda>s. s), stringify = signature,
           unbox = (\<lambda>c k. if c = ''boxed'' \<and> k = ''sk'' then JObj []
                           else if c = ''boxed-empty'' \<and> k = ''sk'' then JStr []
                           else JNull),
           keys_private = ''sk'',
           validate_append = append_spec verify1 (\<lambda>m. CHR ''%'' # signature m),
           validate_appendOOO =
             appendOOO_spec verify1 (\<lambda>m. True) (\<lambda>m. CHR ''%'' # signature m)\<rparr>"

definition db0 :: db where
  "db0 = \<lparr>log = [], index_keys = Map.empty, index_seq = 0, latest = Map.empty,
          state = initial, listeners = []\<rparr>"

definition msg1 :: msg where
  "msg1 = \<lparr>author = ''@alice'', sequence = 1, previous = None, timestamp = 10,
           content = JStr ''boxed'', signature = ''sig'', meta = None\<rparr>"

text \<open>A database that holds \<open>msg1\<close>, indexed, with its author known.\<close>

definition db1 :: db where
  "db1 = \<lparr>log = [Some \<lparr>key = ''%sig'', kvalue = msg1\<rparr>],
          index_keys = [''%sig'' \<mapsto> 0], index_seq = 1,
          latest = [''@alice'' \<mapsto> \<lparr>fid = ''%sig'', ftimestamp = 10, fsequence = 1,
                                    fqueue = []\<rparr>],
          state = \<lparr>feeds = [''@alice'' \<mapsto> \<lparr>fid = ''%sig'', ftimestamp = 10,
                                             fsequence = 1, fqueue = []\<rparr>],
                   error = None, queue = []\<rparr>,
          listeners = []\<rparr>"

text \<open>
  The same database after a second message of the author has been appended that the base
  index has not reached yet.
\<close>

definition msg2 :: msg where
  "msg2 = \<lparr>author = ''@alice'', sequence = 2, previous = Some ''%sig'', timestamp = 20,
           content = JObj [], signature = ''sig2'', meta = None\<rparr>"

definition db2 :: db where
  "db2 = db1\<lparr>log := log db1 @ [Some \<lparr>key = ''%sig2'', kvalue = msg2\<rparr>]\<rparr>"

text \<open>
  A stand-in for bipf: a seek in an empty buffer raises a \<^verbatim>\<open>RangeError\<close>, every
  other seek succeeds, the mentions decode to one link and the key decodes to a string.
\<close>

definition bipf1 :: bipf where
  "bipf1 = \<lparr>seekKey = (\<lambda>b p t. if b = [] then Inl RangeError
                                 else if t = ''key'' then Inr 9 else Inr (p + 1)),
            decode = (\<lambda>b p. if p = 3 then Inr (JArr [JObj [(''link'', JStr ''@bob'')]])
                             else Inr (JStr ''%0123456789abc''))\<rparr>"

definition plugin1 :: plugin where
  "plugin1 = \<lparr>offset_value = 5, batch = []\<rparr>"

text \<open>
  A message of the known author that skips a sequence number, and a message of an
  author the validation state does not know.
\<close>

definition msg_gap :: msg where
  "msg_gap = \<lparr>author = ''@alice'', sequence = 3, previous = Some ''%sig'', timestamp = 20,
              content = JObj [], signature = ''sig'', meta = None\<rparr>"

definition msg_bob :: msg where
  "msg_bob = \<lparr>author = ''@bob'', sequence = 5, previous = Some ''%b4'', timestamp = 7,
              content = JObj [], signature = ''sigb'', meta = None\<rparr>"

text \<open>The record \<^verbatim>\<open>add\<close> stores for \<open>msg1\<close>, decrypted.\<close>

definition stored1 :: kvt where
  "stored1 = \<lparr>key = ''%sig'',
               kvalue = msg1\<lparr>content := JObj [],
                             meta := Some \<lparr>meta_private = ''true'',
                                           meta_original_content = ''boxed''\<rparr>\<rparr>\<rparr>"

section \<open>Properties\<close>

subsection \<open>\<^verbatim>\<open>add\<close>\<close>

lemma add_existing:
  "getDataFromKey d (getId E m) = (err, Some data) \<Longrightarrow>
   add E d m = (d, Inr (Value (kvalue data)))"
  by (simp add: add_def)

lemma add_absent_truthy:
  "snd (getDataFromKey d (getId E m)) = None \<Longrightarrow> content m = JStr c \<Longrightarrow>
   truthy (unbox E c (keys_private E)) \<Longrightarrow>
   add E d m = log_add d (getId E m)
     (m\<lparr>content := unbox E c (keys_private E),
        meta := Some \<lparr>meta_private = ''true'', meta_original_content = c\<rparr>\<rparr>)"
  by (cases "getDataFromKey d (getId E m)") (simp add: add_def Let_def)

lemma add_absent_falsy:
  "snd (getDataFromKey d (getId E m)) = None \<Longrightarrow> content m = JStr c \<Longrightarrow>
   \<not> truthy (unbox E c (keys_private E)) \<Longrightarrow> add E d m = log_add d (getId E m) m"
  by (cases "getDataFromKey d (getId E m)") (simp add: add_def Let_def)

text \<open>
  C7 (as amended). For a message that is not already stored and whose content is a
  string: when \<^verbatim>\<open>keys.unbox\<close> with the private key yields a truthy plaintext,
  \<^verbatim>\<open>add\<close> appends the record with the plaintext as content and the ciphertext kept
  in \<^verbatim>\<open>meta\<close> under \<^verbatim>\<open>original.content\<close>, tagged \<^verbatim>\<open>private: "true"\<close>; when it
  yields a falsy value, because the key does not open the content or because the
  plaintext is itself falsy, \<^verbatim>\<open>add\<close> reports no error and appends the message as it
  is.
\<close>

theorem add_decrypts_at_rest:
  assumes "snd (getDataFromKey d (getId E m)) = None" and "content m = JStr c"
  shows "(truthy (unbox E c (keys_private E)) \<longrightarrow>
            add E d m =
              (d\<lparr>log := log d @
                 [Some \<lparr>key = getId E m,
                        kvalue = m\<lparr>content := unbox E c (keys_private E),
                                    meta := Some \<lparr>meta_private = ''true'',
                                                  meta_original_content = c\<rparr>\<rparr>\<rparr>]\<rparr>,
               Inr (Stored \<lparr>key = getId E m,
                            kvalue = m\<lparr>content := unbox E c (keys_private E),
                                        meta := Some \<lparr>meta_private = ''true'',
                                                      meta_original_content = c\<rparr>\<rparr>\<rparr>)))
       \<and> (\<not> truthy (unbox E c (keys_private E)) \<longrightarrow>
            add E d m =
              (d\<lparr>log := log d @ [Some \<lparr>key = getId E m, kvalue = m\<rparr>]\<rparr>,
               Inr (Stored \<lparr>key = getId E m, kvalue = m\<rparr>)))"
  using assms
  by (simp add: add_absent_truthy add_absent_falsy log_add_def Let_def)

theorem add_decrypts_at_rest_witness:
  "snd (getDataFromKey db0 (getId env1 msg1)) = None \<and> content msg1 = JStr ''boxed''
   \<and> truthy (unbox env1 ''boxed'' (keys_private env1))
   \<and> log (fst (add env1 db0 msg1)) =
       [Some \<lparr>key = ''%sig'',
              kvalue = msg1\<lparr>content := JObj [],
                            meta := Some \<lparr>meta_private = ''true'',
                                          meta_original_content = ''boxed''\<rparr>\<rparr>\<rparr>]
   \<and> snd (getDataFromKey db0 (getId env1 (msg1\<lparr>content := JStr ''junk''\<rparr>))) = None
   \<and> unbox env1 ''junk'' (keys_private env1) = JNull
   \<and> add env1 db0 (msg1\<lparr>content := JStr ''junk''\<rparr>) =
       (db0\<lparr>log := [Some \<lparr>key = ''%sig'', kvalue = msg1\<lparr>content := JStr ''junk''\<rparr>\<rparr>]\<rparr>,
        Inr (Stored \<lparr>key = ''%sig'', kvalue = msg1\<lparr>content := JStr ''junk''\<rparr>\<rparr>))"
  using add_decrypts_at_rest [of db0 env1 msg1 "''boxed''"]
    add_decrypts_at_rest [of db0 env1 "msg1\<lparr>content := JStr ''junk''\<rparr>" "''junk''"]
  by (simp add: getDataFromKey_def getId_def env1_def db0_def msg1_def)

text \<open>
  A ciphertext that the key opens, to the empty string, is not stored decrypted: the
  record keeps the ciphertext as content and has no \<^verbatim>\<open>meta\<close>.
\<close>

theorem add_decrypts_at_rest_counterexample:
  "snd (getDataFromKey db0 (getId env1 (msg1\<lparr>content := JStr ''boxed-empty''\<rparr>))) = None
   \<and> unbox env1 ''boxed-empty'' (keys_private env1) = JStr []
   \<and> add env1 db0 (msg1\<lparr>content := JStr ''boxed-empty''\<rparr>) =
       (db0\<lparr>log := [Some \<lparr>key = ''%sig'',
                           kvalue = msg1\<lparr>content := JStr ''boxed-empty''\<rparr>\<rparr>]\<rparr>,
        Inr (Stored \<lparr>key = ''%sig'', kvalue = msg1\<lparr>content := JStr ''boxed-empty''\<rparr>\<rparr>))
   \<and> meta (msg1\<lparr>content := JStr ''boxed-empty''\<rparr>) = None"
  by (simp add: add_def getDataFromKey_def getId_def env1_def db0_def msg1_def log_add_def
      Let_def)

subsection \<open>\<^verbatim>\<open>del\<close>\<close>

lemma del_unresolved:
  "index_keys d k = None \<Longrightarrow> del d k = (d, Some (Error ''seq is null!''))"
  by (simp add: del_def keyToSeq_def del_cb_def)

lemma del_resolved:
  "index_keys d k = Some s \<Longrightarrow> s < length (log d) \<Longrightarrow>
   del d k = (d\<lparr>log := (log d)[s := None]\<rparr>, None)"
  by (simp add: del_def keyToSeq_def del_cb_def log_del_def)

text \<open>
  C9. \<^verbatim>\<open>del(key)\<close> fails when the base index does not resolve the identity to a log
  sequence: whenever the callback of \<^verbatim>\<open>keyToSeq\<close> gets an error or no sequence it
  reports an error and leaves the database, the log included, as it was, and for an
  identity the index does not hold the error is \<^verbatim>\<open>Error('seq is null!')\<close>. For a
  resolved identity it tombstones that sequence of the log and no other, and succeeds.
\<close>

theorem del_not_found_or_tombstone:
  "(err \<noteq> None \<or> seq = None \<longrightarrow>
      fst (del_cb d err seq) = d \<and> snd (del_cb d err seq) \<noteq> None)
   \<and> (index_keys d k = None \<longrightarrow> del d k = (d, Some (Error ''seq is null!'')))
   \<and> (index_keys d k = Some s \<and> s < length (log d) \<longrightarrow>
        del d k = (d\<lparr>log := (log d)[s := None]\<rparr>, None)
        \<and> log (fst (del d k)) ! s = None
        \<and> length (log (fst (del d k))) = length (log d)
        \<and> (\<forall>j. j \<noteq> s \<longrightarrow> log (fst (del d k)) ! j = log d ! j))"
proof -
  have a: "err \<noteq> None \<or> seq = None \<longrightarrow>
           fst (del_cb d err seq) = d \<and> snd (del_cb d err seq) \<noteq> None"
    by (auto simp: del_cb_def split: option.splits)
  have b: "index_keys d k = None \<longrightarrow> del d k = (d, Some (Error ''seq is null!''))"
    by (simp add: del_unresolved)
  have c: "index_keys d k = Some s \<and> s < length (log d) \<longrightarrow>
        del d k = (d\<lparr>log := (log d)[s := None]\<rparr>, None)
        \<and> log (fst (del d k)) ! s = None
        \<and> length (log (fst (del d k))) = length (log d)
        \<and> (\<forall>j. j \<noteq> s \<longrightarrow> log (fst (del d k)) ! j = log d ! j)"
    by (simp add: del_resolved)
  from a b c show ?thesis by blast
qed

theorem del_not_found_or_tombstone_witness:
  "index_keys db1 ''%none'' = None
   \<and> del db1 ''%none'' = (db1, Some (Error ''seq is null!''))
   \<and> index_keys db1 ''%sig'' = Some 0 \<and> 0 < length (log db1)
   \<and> del db1 ''%sig'' = (db1\<lparr>log := [None]\<rparr>, None)
   \<and> fst (del_cb db1 (Some NotFound) None) = db1"
  using del_not_found_or_tombstone [of "Some NotFound" None db1 "''%none''" 0]
    del_not_found_or_tombstone [of None None db1 "''%sig''" 0]
  by (simp add: db1_def)

subsection \<open>\<^verbatim>\<open>validateAndAddOOO\<close>\<close>

lemma getDataFromKey_state [simp]:
  "getDataFromKey (d\<lparr>state := S\<rparr>) i = getDataFromKey d i"
  by (simp add: getDataFromKey_def split: option.splits)

lemma log_add_state:
  "log_add (d\<lparr>state := S\<rparr>) i m = ((fst (log_add d i m))\<lparr>state := S\<rparr>, snd (log_add d i m))"
  by (simp add: log_add_def Let_def)

lemma add_state_frame:
  "add E (d\<lparr>state := S\<rparr>) m = ((fst (add E d m))\<lparr>state := S\<rparr>, snd (add E d m))"
  by (simp add: add_def Let_def log_add_state split: prod.splits option.splits json.splits)

lemma log_add_keeps_state: "state (fst (log_add d i m)) = state d"
  by (simp add: log_add_def Let_def)

lemma add_keeps_state: "state (fst (add E d m)) = state d"
  by (simp add: add_def Let_def log_add_keeps_state
      split: prod.splits option.splits json.splits)

text \<open>
  C8. \<^verbatim>\<open>validateAndAddOOO\<close> validates on a fresh state of its own, whatever the
  validation function is: the shared validation state is the same after the call as
  before, whether the validation succeeds, rejects or throws, and the call does not read
  it either: with any other shared state \<open>S\<close> in place, the answer and the rest of the
  database come out the same.
\<close>

theorem validateAndAddOOO_shared_state:
  "state (fst (validateAndAddOOO E d m)) = state d
   \<and> validateAndAddOOO E (d\<lparr>state := S\<rparr>) m =
       ((fst (validateAndAddOOO E d m))\<lparr>state := S\<rparr>, snd (validateAndAddOOO E d m))"
  by (simp add: validateAndAddOOO_def add_state_frame add_keeps_state
      split: sum.splits option.splits)

theorem validateAndAddOOO_shared_state_witness:
  "state (fst (validateAndAddOOO env1 db1 (msg1\<lparr>sequence := 7, signature := ''bad7''\<rparr>)))
     = state db1
   \<and> snd (validateAndAddOOO env1 db1 (msg1\<lparr>sequence := 7, signature := ''bad7''\<rparr>))
     = Inl BadSignature
   \<and> state (fst (validateAndAddOOO env1 db0 msg1)) = state db0
   \<and> log (fst (validateAndAddOOO env1 db0 msg1)) \<noteq> []"
  using validateAndAddOOO_shared_state [of env1 db1 "msg1\<lparr>sequence := 7, signature := ''bad7''\<rparr>"]
    validateAndAddOOO_shared_state [of env1 db0 msg1]
  by (simp add: validateAndAddOOO_def env1_def appendOOO_spec_def verify1_def msg1_def
      initial_def add_def getId_def getDataFromKey_def db0_def log_add_def Let_def)

subsection \<open>\<^verbatim>\<open>FullMentions.handleRecord\<close>\<close>

text \<open>
  C10 (as amended). A record whose offset is below \<^verbatim>\<open>this.offset.value\<close>, or whose
  value buffer is absent (a deleted record), is a no-op for the full-mentions index:
  \<^verbatim>\<open>handleRecord\<close> returns with the batch as it was and raises nothing, whatever bipf
  does. A value buffer that is present, an empty one too, is handed to
  \<^verbatim>\<open>bipf.seekKey\<close>, and an exception raised there is raised by \<^verbatim>\<open>handleRecord\<close>.
\<close>

theorem handleRecord_skips:
  "(offset r < offset_value this \<or> rec_value r = None \<longrightarrow>
      handleRecord B this r seq = (this, None))
   \<and> (\<not> offset r < offset_value this \<and> rec_value r = Some b
        \<and> seekKey B b 0 bKey = Inl e \<longrightarrow>
      handleRecord B this r seq = (this, Some e))"
  by (auto simp: handleRecord_def)

theorem handleRecord_skips_witness:
  "offset \<lparr>offset = 3, rec_value = Some [1, 2]\<rparr> < offset_value plugin1
   \<and> handleRecord bipf1 plugin1 \<lparr>offset = 3, rec_value = Some [1, 2]\<rparr> 40 = (plugin1, None)
   \<and> handleRecord bipf1 plugin1 \<lparr>offset = 3, rec_value = Some []\<rparr> 40 = (plugin1, None)
   \<and> rec_value \<lparr>offset = 8, rec_value = None\<rparr> = None
   \<and> handleRecord bipf1 plugin1 \<lparr>offset = 8, rec_value = None\<rparr> 41 = (plugin1, None)
   \<and> \<not> offset \<lparr>offset = 8, rec_value = Some []\<rparr> < offset_value plugin1
   \<and> seekKey bipf1 [] 0 bKey = Inl RangeError
   \<and> snd (handleRecord bipf1 plugin1 \<lparr>offset = 8, rec_value = Some []\<rparr> 42)
       = Some RangeError"
  using handleRecord_skips [of "\<lparr>offset = 3, rec_value = Some [1, 2]\<rparr>" plugin1 bipf1 40]
    handleRecord_skips [of "\<lparr>offset = 3, rec_value = Some []\<rparr>" plugin1 bipf1 40]
    handleRecord_skips [of "\<lparr>offset = 8, rec_value = None\<rparr>" plugin1 bipf1 41]
    handleRecord_skips [of "\<lparr>offset = 8, rec_value = Some []\<rparr>" plugin1 bipf1 42 "[]"
      RangeError]
  by (simp add: plugin1_def bipf1_def)

text \<open>
  A record at or past the boundary whose value buffer is empty is not a no-op: the
  buffer passes \<^verbatim>\<open>!recBuffer\<close>, and the \<^verbatim>\<open>RangeError\<close> of the first seek is raised.
\<close>

theorem handleRecord_skips_counterexample:
  "rec_value \<lparr>offset = 8, rec_value = Some []\<rparr> = Some []
   \<and> seekKey bipf1 [] 0 bKey = Inl RangeError
   \<and> handleRecord bipf1 plugin1 \<lparr>offset = 8, rec_value = Some []\<rparr> 42
       = (plugin1, Some RangeError)"
  by (simp add: handleRecord_def bipf1_def plugin1_def)

text \<open>A live record at or past the boundary does stage its mentions.\<close>

lemma handleRecord_stages:
  "handleRecord bipf1 plugin1 \<lparr>offset = 8, rec_value = Some [1, 2]\<rparr> 42 =
     (plugin1\<lparr>batch := [\<lparr>op_type = ''put'', op_key = (''@bob'', JStr ''012345678''),
                           op_value = 42\<rparr>]\<rparr>, None)"
  by (simp add: handleRecord_def bipf1_def plugin1_def bKey_def bValue_def bContent_def
      bMentions_def)

subsection \<open>\<^verbatim>\<open>deleteFeed\<close>\<close>

lemma del_success_iff:
  "snd (del d k) = None \<longleftrightarrow> (\<exists>s. index_keys d k = Some s \<and> s < length (log d))"
  by (auto simp: del_def keyToSeq_def del_cb_def log_del_def split: option.splits)

lemma del_frame:
  "state (fst (del d k)) = state d \<and> latest (fst (del d k)) = latest d
   \<and> index_keys (fst (del d k)) = index_keys d \<and> index_seq (fst (del d k)) = index_seq d
   \<and> listeners (fst (del d k)) = listeners d
   \<and> length (log (fst (del d k))) = length (log d)"
  by (auto simp: del_def keyToSeq_def del_cb_def log_del_def split: option.splits)

lemma del_success_cong:
  "index_keys d' = index_keys d \<Longrightarrow> length (log d') = length (log d) \<Longrightarrow>
   snd (del d' k) = None \<longleftrightarrow> snd (del d k) = None"
  by (simp add: del_success_iff)

lemma del_each_frame:
  "state (fst (del_each d ks)) = state d \<and> latest (fst (del_each d ks)) = latest d
   \<and> index_keys (fst (del_each d ks)) = index_keys d
   \<and> length (log (fst (del_each d ks))) = length (log d)"
proof (induction ks arbitrary: d)
  case Nil
  then show ?case by simp
next
  case (Cons k ks)
  obtain d' r where dk: "del d k = (d', r)" by (cases "del d k")
  have fr: "state d' = state d \<and> latest d' = latest d \<and> index_keys d' = index_keys d
            \<and> length (log d') = length (log d)"
    using del_frame [of d k] dk by simp
  show ?case
  proof (cases r)
    case None
    then show ?thesis using dk fr Cons.IH [of d'] by simp
  next
    case (Some e)
    then show ?thesis using dk fr by simp
  qed
qed

lemma del_each_success_iff:
  "snd (del_each d ks) = None \<longleftrightarrow> (\<forall>k \<in> set ks. snd (del d k) = None)"
proof (induction ks arbitrary: d)
  case Nil
  then show ?case by simp
next
  case (Cons k ks)
  obtain d' r where dk: "del d k = (d', r)" by (cases "del d k")
  have fr: "index_keys d' = index_keys d \<and> length (log d') = length (log d)"
    using del_frame [of d k] dk by simp
  show ?case
  proof (cases r)
    case None
    have "snd (del_each d (k # ks)) = None \<longleftrightarrow> snd (del_each d' ks) = None"
      using dk None by simp
    also have "\<dots> \<longleftrightarrow> (\<forall>k' \<in> set ks. snd (del d' k') = None)"
      by (rule Cons.IH)
    also have "\<dots> \<longleftrightarrow> (\<forall>k' \<in> set ks. snd (del d k') = None)"
      using fr by (simp add: del_success_iff)
    finally show ?thesis using dk None by simp
  next
    case (Some e)
    then show ?thesis using dk by simp
  qed
qed

lemma deleteFeed_ok:
  "snd (del_each d (map key (query_author d f))) = None \<Longrightarrow>
   deleteFeed d f =
     ((fst (del_each d (map key (query_author d f))))
        \<lparr>state := (state d)\<lparr>feeds := (feeds (state d))(f := None)\<rparr>,
          latest := (latest d)(f := None)\<rparr>, None)"
  using del_each_frame [of d "map key (query_author d f)"]
  by (cases "del_each d (map key (query_author d f))")
     (simp add: deleteFeed_def removeFeedFromLatest_def Let_def)

lemma deleteFeed_fail:
  "snd (del_each d (map key (query_author d f))) = Some e \<Longrightarrow>
   deleteFeed d f = (fst (del_each d (map key (query_author d f))), Some e)"
  by (cases "del_each d (map key (query_author d f))") (simp add: deleteFeed_def Let_def)

text \<open>
  C6. \<^verbatim>\<open>deleteFeed(feedId)\<close> reports success exactly when the deletion of every record
  of the author succeeds. On success the author's entry is gone from \<^verbatim>\<open>state.feeds\<close>
  and from the base index's latest table. On failure the error is reported and the
  validation state and the latest table are as they were, although records deleted
  before the failure stay tombstoned.
\<close>

theorem deleteFeed_cleanup:
  "(snd (deleteFeed d f) = None \<longleftrightarrow> (\<forall>r \<in> set (query_author d f). snd (del d (key r)) = None))
   \<and> (snd (deleteFeed d f) = None \<longrightarrow>
        feeds (state (fst (deleteFeed d f))) = (feeds (state d))(f := None)
        \<and> latest (fst (deleteFeed d f)) = (latest d)(f := None))
   \<and> (snd (deleteFeed d f) \<noteq> None \<longrightarrow>
        state (fst (deleteFeed d f)) = state d
        \<and> latest (fst (deleteFeed d f)) = latest d)"
proof (cases "snd (del_each d (map key (query_author d f)))")
  case None
  have all: "\<forall>r \<in> set (query_author d f). snd (del d (key r)) = None"
    using None del_each_success_iff [of d "map key (query_author d f)"] by simp
  show ?thesis using deleteFeed_ok [OF None] all by simp
next
  case (Some e)
  have nall: "\<not> (\<forall>r \<in> set (query_author d f). snd (del d (key r)) = None)"
    using Some del_each_success_iff [of d "map key (query_author d f)"] by simp
  show ?thesis
    using deleteFeed_fail [OF Some] nall del_each_frame [of d "map key (query_author d f)"]
    by simp
qed


theorem deleteFeed_cleanup_witness:
  "query_author db1 ''@alice'' = [\<lparr>key = ''%sig'', kvalue = msg1\<rparr>]
   \<and> snd (del db1 ''%sig'') = None
   \<and> snd (deleteFeed db1 ''@alice'') = None
   \<and> feeds (state (fst (deleteFeed db1 ''@alice''))) ''@alice'' = None
   \<and> latest (fst (deleteFeed db1 ''@alice'')) ''@alice'' = None
   \<and> log (fst (deleteFeed db1 ''@alice'')) = [None]
   \<and> snd (deleteFeed db2 ''@alice'') = Some (Error ''seq is null!'')
   \<and> state (fst (deleteFeed db2 ''@alice'')) = state db2
   \<and> latest (fst (deleteFeed db2 ''@alice'')) = latest db2
   \<and> log (fst (deleteFeed db2 ''@alice'')) = [None, Some \<lparr>key = ''%sig2'', kvalue = msg2\<rparr>]"
  using deleteFeed_cleanup [of db1 "''@alice''"] deleteFeed_cleanup [of db2 "''@alice''"]
  by (simp add: deleteFeed_def query_author_def db1_def db2_def msg1_def msg2_def del_def
      keyToSeq_def del_cb_def log_del_def removeFeedFromLatest_def Let_def)

subsection \<open>The consistency barrier\<close>

lemma get_resolved: "resolved d i \<Longrightarrow> \<not> isl (get d i)"
  by (auto simp: resolved_def get_def getDataFromKey_def)

lemma readable_caught_up: "readable d i \<Longrightarrow> index_seq d = since d \<Longrightarrow> \<not> isl (get d i)"
  by (auto simp: readable_def unindexed_def since_def get_resolved)

lemma readable_listeners [simp]: "readable (d\<lparr>listeners := l\<rparr>) i = readable d i"
  by (simp add: readable_def resolved_def unindexed_def)

lemma resolved_append: "resolved d i \<Longrightarrow> resolved (d\<lparr>log := log d @ xs\<rparr>) i"
  by (auto simp: resolved_def nth_append)

lemma unindexed_append: "unindexed d i \<Longrightarrow> unindexed (d\<lparr>log := log d @ xs\<rparr>) i"
  by (auto simp: unindexed_def nth_append)

lemma readable_append: "readable d i \<Longrightarrow> readable (d\<lparr>log := log d @ xs\<rparr>) i"
  using resolved_append [of d i xs] unindexed_append [of d i xs]
  by (auto simp: readable_def)

lemma add_cases:
  "add E d m = (d, snd (add E d m)) \<and> snd (getDataFromKey d (getId E m)) \<noteq> None
   \<or> (\<exists>v. add E d m = (d\<lparr>log := log d @ [Some \<lparr>key = getId E m, kvalue = v\<rparr>]\<rparr>,
                        Inr (Stored \<lparr>key = getId E m, kvalue = v\<rparr>))
          \<and> snd (getDataFromKey d (getId E m)) = None)"
  by (cases "getDataFromKey d (getId E m)")
     (auto simp: add_def log_add_def Let_def split: option.splits json.splits)

lemma add_fst_cases:
  "fst (add E d m) = d \<or> (\<exists>x. fst (add E d m) = d\<lparr>log := log d @ [x]\<rparr>)"
  by (cases "getDataFromKey d (getId E m)")
     (auto simp: add_def log_add_def Let_def split: option.splits json.splits)

lemma readable_add: "readable d i \<Longrightarrow> readable (fst (add E d m)) i"
  using add_fst_cases [of E d m] readable_append [of d i] by auto

lemma getDataFromKey_resolved:
  "snd (getDataFromKey d i) \<noteq> None \<Longrightarrow> resolved d i"
  by (auto simp: getDataFromKey_def resolved_def split: option.splits if_splits)

lemma add_makes_readable:
  assumes "index_seq d \<le> length (log d)"
  shows "readable (fst (add E d m)) (getId E m)"
proof -
  have "add E d m = (d, snd (add E d m)) \<and> snd (getDataFromKey d (getId E m)) \<noteq> None
     \<or> (\<exists>v. add E d m = (d\<lparr>log := log d @ [Some \<lparr>key = getId E m, kvalue = v\<rparr>]\<rparr>,
                        Inr (Stored \<lparr>key = getId E m, kvalue = v\<rparr>)))"
    using add_cases [of E d m] by blast
  then show ?thesis
  proof
    assume a: "add E d m = (d, snd (add E d m)) \<and> snd (getDataFromKey d (getId E m)) \<noteq> None"
    then have "resolved d (getId E m)" by (simp add: getDataFromKey_resolved)
    then have "readable d (getId E m)" using assms by (simp add: readable_def)
    moreover have "fst (add E d m) = d" using a by (metis fst_conv)
    ultimately show ?thesis by simp
  next
    assume "\<exists>v. add E d m = (d\<lparr>log := log d @ [Some \<lparr>key = getId E m, kvalue = v\<rparr>]\<rparr>,
                        Inr (Stored \<lparr>key = getId E m, kvalue = v\<rparr>))"
    then obtain v where
      a: "add E d m = (d\<lparr>log := log d @ [Some \<lparr>key = getId E m, kvalue = v\<rparr>]\<rparr>,
                        Inr (Stored \<lparr>key = getId E m, kvalue = v\<rparr>))" by blast
    have "unindexed (d\<lparr>log := log d @ [Some \<lparr>key = getId E m, kvalue = v\<rparr>]\<rparr>) (getId E m)"
      unfolding unindexed_def using assms
      by (intro exI [of _ "length (log d)"] exI [of _ "\<lparr>key = getId E m, kvalue = v\<rparr>"]) simp
    then show ?thesis using a assms by (simp add: readable_def)
  qed
qed

lemma readable_index_record:
  assumes "readable d i" and "index_seq d < length (log d)"
  shows "readable (index_record d) i"
proof -
  let ?s = "index_seq d"
  from assms(1) have "resolved d i \<or> unindexed d i" by (simp add: readable_def)
  then have "resolved (index_record d) i \<or> unindexed (index_record d) i"
  proof
    assume "resolved d i"
    then obtain q r where q: "index_keys d i = Some q" "q < length (log d)" "log d ! q = Some r"
      by (auto simp: resolved_def)
    show ?thesis
    proof (cases "log d ! ?s")
      case None
      then have "resolved (index_record d) i"
        using q by (auto simp: resolved_def index_record_def Let_def)
      then show ?thesis ..
    next
      case (Some r')
      then have "resolved (index_record d) i"
        using q assms(2) by (auto simp: resolved_def index_record_def Let_def)
      then show ?thesis ..
    qed
  next
    assume "unindexed d i"
    then obtain p r where p: "?s \<le> p" "p < length (log d)" "log d ! p = Some r" "key r = i"
      by (auto simp: unindexed_def)
    show ?thesis
    proof (cases "p = ?s")
      case True
      then have "resolved (index_record d) i"
        using p by (auto simp: resolved_def index_record_def Let_def)
      then show ?thesis ..
    next
      case False
      then have "Suc ?s \<le> p" using p(1) by simp
      then have "unindexed (index_record d) i"
        using p by (auto simp: unindexed_def index_record_def Let_def)
      then show ?thesis ..
    qed
  qed
  moreover have "index_seq (index_record d) \<le> length (log (index_record d))"
    using assms(2) by (simp add: index_record_def Let_def)
  ultimately show ?thesis by (simp add: readable_def)
qed


lemma seq_changed_caught_up:
  "index_seq d = since d \<Longrightarrow>
   seq_changed d = (d\<lparr>listeners := []\<rparr>, map (\<lambda>i. (i, get d i)) (listeners d))"
proof -
  assume eq: "index_seq d = since d"
  have "concat (map (\<lambda>i. [(i, get d i)]) l) = map (\<lambda>i. (i, get d i)) l" for l
    by (induction l) simp_all
  then show ?thesis using eq by (simp add: seq_changed_def getSync_listener_def)
qed

lemma seq_changed_behind:
  "index_seq d \<noteq> since d \<Longrightarrow> seq_changed d = (d, [])"
  by (simp add: seq_changed_def getSync_listener_def)

lemma seq_changed_readable:
  "readable d i \<Longrightarrow> readable (fst (seq_changed d)) i"
  by (simp add: seq_changed_def)

lemma seq_changed_answers:
  "readable d i \<Longrightarrow> (i, v) \<in> set (snd (seq_changed d)) \<Longrightarrow> \<not> isl v"
  by (cases "index_seq d = since d")
     (auto simp: seq_changed_caught_up seq_changed_behind readable_caught_up)

lemma index_step_readable:
  "readable d i \<Longrightarrow> readable (fst (index_step d)) i"
  by (simp add: index_step_def seq_changed_readable readable_index_record)

lemma index_step_answers:
  "readable d i \<Longrightarrow> (i, v) \<in> set (snd (index_step d)) \<Longrightarrow> \<not> isl v"
  using seq_changed_answers [of "index_record d" i v] readable_index_record [of d i]
  by (auto simp: index_step_def split: if_splits)

lemma run_answers:
  "readable d i \<Longrightarrow> (i, v) \<in> set (snd (run E d es)) \<Longrightarrow> \<not> isl v"
proof (induction es arbitrary: d)
  case Nil
  then show ?case by simp
next
  case (Cons e es)
  show ?case
  proof (cases e)
    case Indexed
    obtain d1 out where st: "index_step d = (d1, out)" by (cases "index_step d")
    obtain d2 outs where rn: "run E d1 es = (d2, outs)" by (cases "run E d1 es")
    have r1: "readable d1 i" using index_step_readable [OF Cons.prems(1)] st by simp
    from Cons.prems(2) have "(i, v) \<in> set out \<or> (i, v) \<in> set outs"
      using Indexed st rn by auto
    then show ?thesis
    proof
      assume "(i, v) \<in> set out"
      then show ?thesis using index_step_answers [OF Cons.prems(1), of v] st by simp
    next
      assume "(i, v) \<in> set outs"
      then show ?thesis using Cons.IH [OF r1] rn by simp
    qed
  next
    case (Added m)
    have "readable (fst (add E d m)) i" using Cons.prems(1) by (rule readable_add)
    then show ?thesis using Cons.IH [of "fst (add E d m)"] Cons.prems(2) Added by simp
  qed
qed

lemma index_record_frame:
  "log (index_record d) = log d \<and> listeners (index_record d) = listeners d
   \<and> index_seq (index_record d) = Suc (index_seq d)"
  by (simp add: index_record_def Let_def)

lemma run_catches_up:
  "index_seq d < length (log d) \<Longrightarrow> i \<in> set (listeners d) \<Longrightarrow>
   n = length (log d) - index_seq d \<Longrightarrow>
   \<exists>v. (i, v) \<in> set (snd (run E d (replicate n Indexed)))"
proof (induction n arbitrary: d)
  case 0
  then show ?case by simp
next
  case (Suc n)
  let ?d' = "index_record d"
  have fr: "log ?d' = log d" "listeners ?d' = listeners d" "index_seq ?d' = Suc (index_seq d)"
    by (simp_all add: index_record_frame)
  have st: "index_step d = seq_changed ?d'" using Suc.prems(1) by (simp add: index_step_def)
  show ?case
  proof (cases "index_seq ?d' = since ?d'")
    case True
    have "(i, get ?d' i) \<in> set (snd (index_step d))"
      using st seq_changed_caught_up [OF True] Suc.prems(2) fr by simp
    then show ?thesis
      by (cases "index_step d"; cases "run E (fst (index_step d)) (replicate n Indexed)") auto
  next
    case False
    have sc: "index_step d = (?d', [])" using st seq_changed_behind [OF False] by simp
    have lt: "index_seq ?d' < length (log ?d')"
      using False Suc.prems(1) fr by (simp add: since_def)
    have n: "n = length (log ?d') - index_seq ?d'" using Suc.prems(3) fr by simp
    have mem: "i \<in> set (listeners ?d')" using Suc.prems(2) fr by simp
    have "\<exists>v. (i, v) \<in> set (snd (run E ?d' (replicate n Indexed)))"
      using lt mem n by (rule Suc.IH)
    then show ?thesis using sc
      by (cases "run E ?d' (replicate n Indexed)") auto
  qed
qed

lemma seq_changed_count:
  "length (filter (\<lambda>a. fst a = i) (snd (seq_changed d)))
     + count_list (listeners (fst (seq_changed d))) i = count_list (listeners d) i"
proof (cases "index_seq d = since d")
  case True
  have "length (filter (\<lambda>a. fst a = i) (map (\<lambda>j. (j, get d j)) l)) = count_list l i" for l
    by (induction l) simp_all
  then show ?thesis using True by (simp add: seq_changed_caught_up)
next
  case False
  then show ?thesis by (simp add: seq_changed_behind)
qed

lemma index_step_count:
  "length (filter (\<lambda>a. fst a = i) (snd (index_step d)))
     + count_list (listeners (fst (index_step d))) i = count_list (listeners d) i"
  using seq_changed_count [of i "index_record d"]
  by (simp add: index_step_def index_record_frame)

lemma add_listeners: "listeners (fst (add E d m)) = listeners d"
  using add_fst_cases [of E d m] by auto

lemma run_count:
  "length (filter (\<lambda>a. fst a = i) (snd (run E d es)))
     + count_list (listeners (fst (run E d es))) i = count_list (listeners d) i"
proof (induction es arbitrary: d)
  case Nil
  then show ?case by simp
next
  case (Cons e es)
  show ?case
  proof (cases e)
    case Indexed
    obtain d1 out where st: "index_step d = (d1, out)" by (cases "index_step d")
    obtain d2 outs where rn: "run E d1 es = (d2, outs)" by (cases "run E d1 es")
    have a: "length (filter (\<lambda>a. fst a = i) out) + count_list (listeners d1) i
             = count_list (listeners d) i"
      using index_step_count [of i d] st by simp
    have b: "length (filter (\<lambda>a. fst a = i) outs) + count_list (listeners d2) i
             = count_list (listeners d1) i"
      using Cons.IH [of d1] rn by simp
    show ?thesis using a b Indexed st rn by simp
  next
    case (Added m)
    then show ?thesis using Cons.IH [of "fst (add E d m)"] by (simp add: add_listeners)
  qed
qed

text \<open>
  C5. \<^verbatim>\<open>getSync(id)\<close> reads at once when the base index's watermark equals the
  log's last sequence, and otherwise subscribes and answers later. At a change of the
  watermark every subscribed read is answered and unsubscribed when the two are equal,
  and stays subscribed otherwise; over any run of indexer steps and further adds, the
  answers given for an identity and the reads still subscribed for it add up to the reads
  that were subscribed, so each is answered at most once. Hence, after an \<^verbatim>\<open>add\<close>
  of a message on a database whose watermark is within the log, a \<^verbatim>\<open>getSync\<close> for its
  identity is never answered with an error, whether at once or after any run of indexer
  steps and further adds, and when it was deferred the answer has come, with the
  message, by the time the indexer has taken the steps it was behind.
\<close>

theorem getSync_barrier:
  "(index_seq d = since d \<longrightarrow> getSync d i = (d, Some (get d i)))
   \<and> (index_seq d \<noteq> since d \<longrightarrow> getSync d i = (d\<lparr>listeners := listeners d @ [i]\<rparr>, None))
   \<and> (index_seq d = since d \<longrightarrow>
        seq_changed d = (d\<lparr>listeners := []\<rparr>, map (\<lambda>j. (j, get d j)) (listeners d)))
   \<and> (index_seq d \<noteq> since d \<longrightarrow> seq_changed d = (d, []))
   \<and> length (filter (\<lambda>a. fst a = i) (snd (run E d es)))
        + count_list (listeners (fst (run E d es))) i = count_list (listeners d) i
   \<and> (index_seq d \<le> length (log d) \<longrightarrow>
        (\<forall>v. snd (getSync (fst (add E d m)) (getId E m)) = Some v \<longrightarrow> \<not> isl v)
        \<and> (\<forall>v. (getId E m, v) \<in> set (snd (run E (fst (getSync (fst (add E d m)) (getId E m))) es))
              \<longrightarrow> \<not> isl v)
        \<and> (snd (getSync (fst (add E d m)) (getId E m)) = None \<longrightarrow>
             (\<exists>v. (getId E m, Inr v) \<in>
                set (snd (run E (fst (getSync (fst (add E d m)) (getId E m)))
                       (replicate (since (fst (add E d m)) - index_seq (fst (add E d m)))
                          Indexed))))))"
proof -
  let ?d1 = "fst (add E d m)"
  let ?i = "getId E m"
  let ?d2 = "fst (getSync ?d1 ?i)"
  have a: "index_seq d = since d \<longrightarrow> getSync d i = (d, Some (get d i))"
    by (simp add: getSync_def)
  have b: "index_seq d \<noteq> since d \<longrightarrow> getSync d i = (d\<lparr>listeners := listeners d @ [i]\<rparr>, None)"
    by (simp add: getSync_def)
  have c: "index_seq d = since d \<longrightarrow>
        seq_changed d = (d\<lparr>listeners := []\<rparr>, map (\<lambda>j. (j, get d j)) (listeners d))"
    by (simp add: seq_changed_caught_up)
  have c': "index_seq d \<noteq> since d \<longrightarrow> seq_changed d = (d, [])"
    by (simp add: seq_changed_behind)
  have e: "length (filter (\<lambda>a. fst a = i) (snd (run E d es)))
        + count_list (listeners (fst (run E d es))) i = count_list (listeners d) i"
    by (rule run_count)
  have f: "index_seq d \<le> length (log d) \<longrightarrow>
        (\<forall>v. snd (getSync ?d1 ?i) = Some v \<longrightarrow> \<not> isl v)
        \<and> (\<forall>v. (?i, v) \<in> set (snd (run E ?d2 es)) \<longrightarrow> \<not> isl v)
        \<and> (snd (getSync ?d1 ?i) = None \<longrightarrow>
             (\<exists>v. (?i, Inr v) \<in>
                set (snd (run E ?d2 (replicate (since ?d1 - index_seq ?d1) Indexed)))))"
  proof
    assume le: "index_seq d \<le> length (log d)"
    have r1: "readable ?d1 ?i" using le by (rule add_makes_readable)
    have r2: "readable ?d2 ?i" using r1 by (simp add: getSync_def)
    have f1: "\<forall>v. snd (getSync ?d1 ?i) = Some v \<longrightarrow> \<not> isl v"
      using readable_caught_up [OF r1] by (auto simp: getSync_def split: if_splits)
    have f2: "\<forall>v. (?i, v) \<in> set (snd (run E ?d2 es)) \<longrightarrow> \<not> isl v"
      using run_answers [OF r2] by blast
    have f3: "snd (getSync ?d1 ?i) = None \<longrightarrow>
             (\<exists>v. (?i, Inr v) \<in>
                set (snd (run E ?d2 (replicate (since ?d1 - index_seq ?d1) Indexed))))"
    proof
      assume "snd (getSync ?d1 ?i) = None"
      then have ne: "index_seq ?d1 \<noteq> since ?d1" by (auto simp: getSync_def split: if_splits)
      have d2: "?d2 = ?d1\<lparr>listeners := listeners ?d1 @ [?i]\<rparr>" using ne by (simp add: getSync_def)
      have "index_seq ?d1 \<le> length (log ?d1)" using r1 by (simp add: readable_def)
      then have lt: "index_seq ?d2 < length (log ?d2)" using ne d2 by (simp add: since_def)
      have mem: "?i \<in> set (listeners ?d2)" using d2 by simp
      have n: "since ?d1 - index_seq ?d1 = length (log ?d2) - index_seq ?d2"
        using d2 by (simp add: since_def)
      obtain v where v: "(?i, v) \<in> set (snd (run E ?d2 (replicate (since ?d1 - index_seq ?d1) Indexed)))"
        using run_catches_up [OF lt mem n, of E] by blast
      then have "\<not> isl v" using run_answers [OF r2] by blast
      then obtain x where "v = Inr x" by (cases v) auto
      then show "\<exists>v. (?i, Inr v) \<in>
                set (snd (run E ?d2 (replicate (since ?d1 - index_seq ?d1) Indexed)))"
        using v by blast
    qed
    show "(\<forall>v. snd (getSync ?d1 ?i) = Some v \<longrightarrow> \<not> isl v)
        \<and> (\<forall>v. (?i, v) \<in> set (snd (run E ?d2 es)) \<longrightarrow> \<not> isl v)
        \<and> (snd (getSync ?d1 ?i) = None \<longrightarrow>
             (\<exists>v. (?i, Inr v) \<in>
                set (snd (run E ?d2 (replicate (since ?d1 - index_seq ?d1) Indexed)))))"
      using f1 f2 f3 by blast
  qed
  from a b c c' e f show ?thesis by blast
qed


lemma add2: "add env1 db1 msg2 = (db2, Inr (Stored \<lparr>key = ''%sig2'', kvalue = msg2\<rparr>))"
  by (simp add: add_def getId_def getDataFromKey_def env1_def db1_def db2_def msg2_def
      log_add_def Let_def)

theorem getSync_barrier_witness:
  "index_seq db1 = since db1
   \<and> getSync db1 ''%sig'' = (db1, Some (get db1 ''%sig''))
   \<and> get db1 ''%sig'' = Inr msg1
   \<and> index_seq db2 \<noteq> since db2
   \<and> getSync db2 ''%sig2'' = (db2\<lparr>listeners := listeners db2 @ [''%sig2'']\<rparr>, None)
   \<and> index_seq db1 \<le> length (log db1)
   \<and> snd (getSync (fst (add env1 db1 msg2)) (getId env1 msg2)) = None
   \<and> (\<exists>v. (getId env1 msg2, Inr v) \<in>
         set (snd (run env1 (fst (getSync (fst (add env1 db1 msg2)) (getId env1 msg2)))
                (replicate (since (fst (add env1 db1 msg2)) - index_seq (fst (add env1 db1 msg2)))
                   Indexed))))"
proof -
  have a1: "index_seq db1 = since db1" by (simp add: since_def db1_def)
  have a2: "index_seq db2 \<noteq> since db2" by (simp add: since_def db1_def db2_def)
  have a3: "index_seq db1 \<le> length (log db1)" by (simp add: db1_def)
  have g1: "get db1 ''%sig'' = Inr msg1" by (simp add: get_def getDataFromKey_def db1_def)
  have i: "getId env1 msg2 = ''%sig2''" by (simp add: getId_def env1_def msg2_def)
  have n: "snd (getSync (fst (add env1 db1 msg2)) (getId env1 msg2)) = None"
    using a2 by (simp add: add2 getSync_def)
  have c1: "getSync db1 ''%sig'' = (db1, Some (get db1 ''%sig''))"
    using a1 getSync_barrier [of db1 "''%sig''" env1 "[]" msg2] by blast
  have c2: "getSync db2 ''%sig2'' = (db2\<lparr>listeners := listeners db2 @ [''%sig2'']\<rparr>, None)"
    using a2 getSync_barrier [of db2 "''%sig2''" env1 "[]" msg2] by blast
  have c3: "\<exists>v. (getId env1 msg2, Inr v) \<in>
         set (snd (run env1 (fst (getSync (fst (add env1 db1 msg2)) (getId env1 msg2)))
                (replicate (since (fst (add env1 db1 msg2)) - index_seq (fst (add env1 db1 msg2)))
                   Indexed)))"
    using a3 n getSync_barrier [of db1 "''%sig''" env1 "[]" msg2] by blast
  show ?thesis using a1 a2 a3 g1 n c1 c2 c3 by blast
qed

lemma getSync_run_example:
  "run env1 (db2\<lparr>listeners := [''%sig2'']\<rparr>) [Indexed, Indexed]
     = (db2\<lparr>index_keys := [''%sig'' \<mapsto> 0, ''%sig2'' \<mapsto> 1], index_seq := 2,
             listeners := []\<rparr>, [(''%sig2'', Inr msg2)])"
  by (simp add: index_step_def index_record_def seq_changed_def getSync_listener_def
        since_def get_def getDataFromKey_def db2_def db1_def Let_def)

subsection \<open>\<^verbatim>\<open>add\<close> twice\<close>

lemma index_step_last:
  assumes "log d ! p = Some r" and "Suc p = length (log d)"
    and "index_seq d \<le> p \<or> index_keys d (key r) = Some p"
  shows "log (fst (index_step d)) = log d
         \<and> (index_seq (fst (index_step d)) \<le> p
             \<or> index_keys (fst (index_step d)) (key r) = Some p)"
proof (cases "index_seq d < length (log d)")
  case False
  then show ?thesis using assms(3) by (simp add: index_step_def)
next
  case True
  then have le: "index_seq d \<le> p" using assms(2) by simp
  show ?thesis
  proof (cases "index_seq d = p")
    case True
    then show ?thesis using assms(1,2)
      by (simp add: index_step_def seq_changed_def index_record_def Let_def)
  next
    case False
    then have "Suc (index_seq d) \<le> p" using le by simp
    then show ?thesis using True
      by (simp add: index_step_def seq_changed_def index_record_def Let_def)
  qed
qed

lemma run_indexed_last:
  "log d ! p = Some r \<Longrightarrow> Suc p = length (log d) \<Longrightarrow>
   index_seq d \<le> p \<or> index_keys d (key r) = Some p \<Longrightarrow>
   log (fst (run E d (replicate n Indexed))) = log d
   \<and> (index_seq (fst (run E d (replicate n Indexed))) \<le> p
       \<or> index_keys (fst (run E d (replicate n Indexed))) (key r) = Some p)"
proof (induction n arbitrary: d)
  case 0
  then show ?case by simp
next
  case (Suc n)
  let ?d1 = "fst (index_step d)"
  have st: "log ?d1 = log d
            \<and> (index_seq ?d1 \<le> p \<or> index_keys ?d1 (key r) = Some p)"
    using Suc.prems by (rule index_step_last)
  have "log (fst (run E ?d1 (replicate n Indexed))) = log ?d1
   \<and> (index_seq (fst (run E ?d1 (replicate n Indexed))) \<le> p
       \<or> index_keys (fst (run E ?d1 (replicate n Indexed))) (key r) = Some p)"
    using Suc.IH [of ?d1] st Suc.prems(1,2) by simp
  then show ?case using st
    by (cases "index_step d"; cases "run E ?d1 (replicate n Indexed)") auto
qed

lemma add_absent:
  "snd (getDataFromKey d (getId E m)) = None \<Longrightarrow>
   \<exists>v. add E d m = (d\<lparr>log := log d @ [Some \<lparr>key = getId E m, kvalue = v\<rparr>]\<rparr>,
                     Inr (Stored \<lparr>key = getId E m, kvalue = v\<rparr>))"
  using add_cases [of E d m] by auto

text \<open>
  C2 (as amended). When the base index resolves the identity of \<open>m\<close> to a stored
  record, \<^verbatim>\<open>add\<close> answers with the value of that record and leaves the database, the
  log included, as it was. Hence, when \<open>m\<close> was not stored, the first \<^verbatim>\<open>add\<close>
  appends one record and, once the indexer has caught up with the log, a second
  \<^verbatim>\<open>add\<close> of the same message answers with the value of that very record and appends
  nothing: the log holds one new record.
\<close>

theorem add_idempotent_once_indexed:
  "(getDataFromKey d (getId E m) = (err, Some data) \<longrightarrow>
      add E d m = (d, Inr (Value (kvalue data))))
   \<and> (index_seq d \<le> length (log d) \<and> snd (getDataFromKey d (getId E m)) = None
        \<and> index_seq (fst (run E (fst (add E d m)) (replicate n Indexed)))
            = since (fst (run E (fst (add E d m)) (replicate n Indexed)))
      \<longrightarrow> (\<exists>r. snd (add E d m) = Inr (Stored r)
               \<and> add E (fst (run E (fst (add E d m)) (replicate n Indexed))) m
                   = (fst (run E (fst (add E d m)) (replicate n Indexed)),
                      Inr (Value (kvalue r)))
               \<and> log (fst (run E (fst (add E d m)) (replicate n Indexed)))
                   = log d @ [Some r]))"
proof -
  let ?i = "getId E m"
  let ?d1 = "fst (add E d m)"
  let ?d2 = "fst (run E ?d1 (replicate n Indexed))"
  have a: "getDataFromKey d ?i = (err, Some data) \<longrightarrow>
           add E d m = (d, Inr (Value (kvalue data)))"
    by (simp add: add_existing)
  have b: "index_seq d \<le> length (log d) \<and> snd (getDataFromKey d ?i) = None
        \<and> index_seq ?d2 = since ?d2
      \<longrightarrow> (\<exists>r. snd (add E d m) = Inr (Stored r)
               \<and> add E ?d2 m = (?d2, Inr (Value (kvalue r)))
               \<and> log ?d2 = log d @ [Some r])"
  proof
    assume h: "index_seq d \<le> length (log d) \<and> snd (getDataFromKey d ?i) = None
        \<and> index_seq ?d2 = since ?d2"
    then obtain v where
      ad: "add E d m = (d\<lparr>log := log d @ [Some \<lparr>key = ?i, kvalue = v\<rparr>]\<rparr>,
                        Inr (Stored \<lparr>key = ?i, kvalue = v\<rparr>))"
      using add_absent [of d E m] by blast
    let ?r = "\<lparr>key = ?i, kvalue = v\<rparr>"
    let ?p = "length (log d)"
    have d1: "?d1 = d\<lparr>log := log d @ [Some ?r]\<rparr>" using ad by simp
    have p1: "log ?d1 ! ?p = Some ?r" using d1 by simp
    have p2: "Suc ?p = length (log ?d1)" using d1 by simp
    have p3: "index_seq ?d1 \<le> ?p \<or> index_keys ?d1 (key ?r) = Some ?p"
      using d1 h by simp
    have fin: "log ?d2 = log ?d1
               \<and> (index_seq ?d2 \<le> ?p \<or> index_keys ?d2 (key ?r) = Some ?p)"
      using p1 p2 p3 by (rule run_indexed_last)
    have lg: "log ?d2 = log d @ [Some ?r]" using fin d1 by simp
    have "index_seq ?d2 = Suc ?p" using h lg by (simp add: since_def)
    then have "index_keys ?d2 ?i = Some ?p" using fin by simp
    then have "getDataFromKey ?d2 ?i = (None, Some ?r)"
      using lg by (simp add: getDataFromKey_def)
    then have "add E ?d2 m = (?d2, Inr (Value (kvalue ?r)))"
      by (rule add_existing)
    then show "\<exists>r. snd (add E d m) = Inr (Stored r)
               \<and> add E ?d2 m = (?d2, Inr (Value (kvalue r)))
               \<and> log ?d2 = log d @ [Some r]"
      using ad lg by (intro exI [of _ ?r]) simp
  qed
  from a b show ?thesis by blast
qed


lemma add1: "add env1 db0 msg1 = (db0\<lparr>log := [Some stored1]\<rparr>, Inr (Stored stored1))"
  by (simp add: add_def getId_def getDataFromKey_def env1_def db0_def msg1_def log_add_def
      Let_def stored1_def)

lemma run1:
  "fst (run env1 (fst (add env1 db0 msg1)) (replicate 1 Indexed)) =
     db0\<lparr>log := [Some stored1], index_keys := [''%sig'' \<mapsto> 0], index_seq := 1\<rparr>"
  by (simp add: add1) (simp add: index_step_def index_record_def seq_changed_def db0_def stored1_def Let_def)

theorem add_idempotent_once_indexed_witness:
  "getDataFromKey db1 (getId env1 msg1) = (None, Some \<lparr>key = ''%sig'', kvalue = msg1\<rparr>)
   \<and> add env1 db1 msg1 = (db1, Inr (Value msg1))
   \<and> index_seq db0 \<le> length (log db0) \<and> snd (getDataFromKey db0 (getId env1 msg1)) = None
   \<and> index_seq (fst (run env1 (fst (add env1 db0 msg1)) (replicate 1 Indexed)))
       = since (fst (run env1 (fst (add env1 db0 msg1)) (replicate 1 Indexed)))
   \<and> snd (add env1 (fst (run env1 (fst (add env1 db0 msg1)) (replicate 1 Indexed))) msg1)
       = Inr (Value (kvalue stored1))
   \<and> log (fst (run env1 (fst (add env1 db0 msg1)) (replicate 1 Indexed))) = [Some stored1]"
proof -
  have g: "getDataFromKey db1 (getId env1 msg1) = (None, Some \<lparr>key = ''%sig'', kvalue = msg1\<rparr>)"
    by (simp add: getDataFromKey_def getId_def env1_def db1_def msg1_def)
  have h1: "index_seq db0 \<le> length (log db0)" by (simp add: db0_def)
  have h2: "snd (getDataFromKey db0 (getId env1 msg1)) = None"
    by (simp add: db0_def getDataFromKey_def)
  have h3: "index_seq (fst (run env1 (fst (add env1 db0 msg1)) (replicate 1 Indexed)))
       = since (fst (run env1 (fst (add env1 db0 msg1)) (replicate 1 Indexed)))"
    unfolding run1 by (simp add: since_def)
  have s1: "snd (add env1 db0 msg1) = Inr (Stored stored1)" by (simp add: add1)
  have c1: "add env1 db1 msg1 = (db1, Inr (Value msg1))"
    using g add_idempotent_once_indexed [of db1 env1 msg1 None "\<lparr>key = ''%sig'', kvalue = msg1\<rparr>" 1]
    by simp
  have "\<exists>r. snd (add env1 db0 msg1) = Inr (Stored r)
          \<and> add env1 (fst (run env1 (fst (add env1 db0 msg1)) (replicate 1 Indexed))) msg1
              = (fst (run env1 (fst (add env1 db0 msg1)) (replicate 1 Indexed)),
                 Inr (Value (kvalue r)))
          \<and> log (fst (run env1 (fst (add env1 db0 msg1)) (replicate 1 Indexed)))
              = log db0 @ [Some r]"
    using h1 h2 h3 add_idempotent_once_indexed [of db0 env1 msg1 None "\<lparr>key = ''%sig'', kvalue = msg1\<rparr>" 1]
    by blast
  then have c2: "snd (add env1 (fst (run env1 (fst (add env1 db0 msg1)) (replicate 1 Indexed))) msg1)
       = Inr (Value (kvalue stored1))
     \<and> log (fst (run env1 (fst (add env1 db0 msg1)) (replicate 1 Indexed))) = [Some stored1]"
    using s1 by (auto simp: db0_def)
  show ?thesis using g h1 h2 h3 c1 c2 by blast
qed

text \<open>
  Two adds of the same message with no indexer step in between both find the identity
  unresolved and both append: the log holds two new records.
\<close>

theorem add_twice_counterexample:
  "snd (add env1 db0 msg1) = Inr (Stored stored1)
   \<and> snd (add env1 (fst (add env1 db0 msg1)) msg1) = Inr (Stored stored1)
   \<and> log (fst (add env1 (fst (add env1 db0 msg1)) msg1)) = [Some stored1, Some stored1]
   \<and> length (log (fst (add env1 (fst (add env1 db0 msg1)) msg1))) \<noteq> length (log db0) + 1"
  by (simp add: add_def getId_def getDataFromKey_def env1_def db0_def msg1_def log_add_def
      Let_def stored1_def)

subsection \<open>\<^verbatim>\<open>validateAndAdd\<close>\<close>

lemma validateAndAdd_known:
  "feeds (state d) (author m) = Some fs \<Longrightarrow>
   validateAndAdd E d m =
     (case validate_append E (state d) hmac_key m of
        Inl ex \<Rightarrow> (d, Inl ex)
      | Inr s \<Rightarrow>
          (case error s of
             Some e \<Rightarrow> (d\<lparr>state := s\<rparr>, Inl e)
           | None \<Rightarrow> add E (d\<lparr>state := s\<rparr>) m))"
  by (simp add: validateAndAdd_def)

lemma validateAndAdd_unknown:
  "feeds (state d) (author m) = None \<Longrightarrow>
   validateAndAdd E d m =
     (case validate_appendOOO E (state d) hmac_key m of
        Inl ex \<Rightarrow> (d, Inl ex)
      | Inr s \<Rightarrow>
          (case error s of
             Some e \<Rightarrow> (d\<lparr>state := s\<rparr>, Inl e)
           | None \<Rightarrow> add E (d\<lparr>state := s\<rparr>) m))"
  by (simp add: validateAndAdd_def)

lemma validateAndAdd_error_slot:
  "feeds (state d) (author m) = Some fs \<Longrightarrow>
   validate_append E (state d) hmac_key m = Inr s \<Longrightarrow> error s = Some e \<Longrightarrow>
   validateAndAdd E d m = (d\<lparr>state := s\<rparr>, Inl e)"
  by (simp add: validateAndAdd_known)

lemma append_spec_rejects:
  "feeds s (author m) = Some fs \<Longrightarrow> append_check (verify hk) fs m = Some e \<Longrightarrow>
   append_spec verify ident s hk m = Inl e"
  by (simp add: append_spec_def)

lemma append_check_kinds:
  "(sequence m \<noteq> fsequence fs + 1 \<longrightarrow> append_check v fs m = Some SequenceGap)
   \<and> (sequence m = fsequence fs + 1 \<and> previous m \<noteq> Some (fid fs) \<longrightarrow>
        append_check v fs m = Some PreviousMismatch)
   \<and> (sequence m = fsequence fs + 1 \<and> previous m = Some (fid fs)
        \<and> timestamp m < ftimestamp fs \<longrightarrow> append_check v fs m = Some TimestampRegression)
   \<and> (sequence m = fsequence fs + 1 \<and> previous m = Some (fid fs)
        \<and> ftimestamp fs \<le> timestamp m \<and> \<not> v m \<longrightarrow> append_check v fs m = Some BadSignature)"
  by (simp add: append_check_def)

text \<open>
  C3. For a message of a known author: whenever the strict validation fails, which it
  reports by throwing, \<^verbatim>\<open>validateAndAdd\<close> reports the error, does not call
  \<^verbatim>\<open>add\<close>, and leaves the whole database as it was: the log, the author's feed
  state and the validation state as a whole. With the append of the spec, a candidate
  that fails a check is reported with the error of the first check it fails: a sequence
  that is not the latest plus one (a duplicate or a gap), then a wrong
  \<^verbatim>\<open>previous\<close>, then a timestamp below the latest, then a bad signature.
\<close>

theorem validateAndAdd_rejects_known:
  assumes "feeds (state d) (author m) = Some fs"
  shows "(validate_append E (state d) hmac_key m = Inl ex \<longrightarrow>
            validateAndAdd E d m = (d, Inl ex))
     \<and> (validate_append E = append_spec verify ident
          \<and> append_check (verify hmac_key) fs m = Some e \<longrightarrow>
            validateAndAdd E d m = (d, Inl e))
     \<and> (sequence m \<noteq> fsequence fs + 1 \<longrightarrow>
            append_check (verify hmac_key) fs m = Some SequenceGap)
     \<and> (sequence m = fsequence fs + 1 \<and> previous m \<noteq> Some (fid fs) \<longrightarrow>
            append_check (verify hmac_key) fs m = Some PreviousMismatch)
     \<and> (sequence m = fsequence fs + 1 \<and> previous m = Some (fid fs)
          \<and> timestamp m < ftimestamp fs \<longrightarrow>
            append_check (verify hmac_key) fs m = Some TimestampRegression)
     \<and> (sequence m = fsequence fs + 1 \<and> previous m = Some (fid fs)
          \<and> ftimestamp fs \<le> timestamp m \<and> \<not> verify hmac_key m \<longrightarrow>
            append_check (verify hmac_key) fs m = Some BadSignature)"
proof -
  have a: "validate_append E (state d) hmac_key m = Inl ex \<longrightarrow>
            validateAndAdd E d m = (d, Inl ex)"
    using assms by (simp add: validateAndAdd_known)
  have c: "validate_append E = append_spec verify ident
          \<and> append_check (verify hmac_key) fs m = Some e \<longrightarrow>
            validateAndAdd E d m = (d, Inl e)"
    using assms by (simp add: validateAndAdd_known append_spec_rejects)
  from a c append_check_kinds [of m fs "verify hmac_key"] show ?thesis by blast
qed

theorem validateAndAdd_rejects_known_witness:
  "feeds (state db1) (author msg_gap)
     = Some \<lparr>fid = ''%sig'', ftimestamp = 10, fsequence = 1, fqueue = []\<rparr>
   \<and> validate_append env1 = append_spec verify1 (\<lambda>m. CHR ''%'' # signature m)
   \<and> append_check (verify1 hmac_key)
        \<lparr>fid = ''%sig'', ftimestamp = 10, fsequence = 1, fqueue = []\<rparr> msg_gap
       = Some SequenceGap
   \<and> validateAndAdd env1 db1 msg_gap = (db1, Inl SequenceGap)"
proof -
  let ?fs = "\<lparr>fid = ''%sig'', ftimestamp = 10, fsequence = 1, fqueue = []\<rparr>"
  have k: "feeds (state db1) (author msg_gap) = Some ?fs" by (simp add: db1_def msg_gap_def)
  have v: "validate_append env1 = append_spec verify1 (\<lambda>m. CHR ''%'' # signature m)"
    by (simp add: env1_def)
  have g: "sequence msg_gap \<noteq> fsequence ?fs + 1" by (simp add: msg_gap_def)
  have c: "append_check (verify1 hmac_key) ?fs msg_gap = Some SequenceGap"
    using g validateAndAdd_rejects_known [OF k, of env1 _ verify1] by blast
  show ?thesis
    using k v c validateAndAdd_rejects_known [OF k, of env1 _ verify1 "\<lambda>m. CHR ''%'' # signature m" SequenceGap]
    by blast
qed

lemma add_env_appendOOO [simp]: "add (E\<lparr>validate_appendOOO := f\<rparr>) d m = add E d m"
  by (simp add: add_def getId_def cong: json.case_cong option.case_cong prod.case_cong if_cong)

lemma appendOOO_spec_admits:
  "wellformed m \<Longrightarrow> verify hk m \<Longrightarrow> feeds s (author m) = None \<Longrightarrow>
   appendOOO_spec verify wellformed ident s hk m =
     Inr (s\<lparr>feeds := (feeds s)(author m \<mapsto>
              \<lparr>fid = ident m, ftimestamp = timestamp m, fsequence = sequence m,
               fqueue = []\<rparr>)\<rparr>)"
  by (simp add: appendOOO_spec_def)

lemma appendOOO_spec_rejects:
  "\<not> (wellformed m \<and> verify hk m) \<Longrightarrow>
   isl (appendOOO_spec verify wellformed ident s hk m)"
  by (auto simp: appendOOO_spec_def)

lemma appendOOO_spec_known:
  "appendOOO_spec verify wellformed ident s hk m = Inr s' \<Longrightarrow> feeds s a \<noteq> None \<Longrightarrow>
   feeds s' a \<noteq> None"
  by (auto simp: appendOOO_spec_def split: if_splits)

lemma append_spec_known:
  "append_spec verify ident s hk m = Inr s' \<Longrightarrow> feeds s a \<noteq> None \<Longrightarrow>
   feeds s' a \<noteq> None"
  by (auto simp: append_spec_def split: option.splits if_splits)

lemma validateAndAdd_state_cases:
  "state (fst (validateAndAdd E d m)) = state d
   \<or> (if feeds (state d) (author m) = None
       then validate_appendOOO E (state d) hmac_key m
       else validate_append E (state d) hmac_key m)
      = Inr (state (fst (validateAndAdd E d m)))"
  by (auto simp: validateAndAdd_def Let_def add_keeps_state split: sum.splits option.splits)

lemma validateAndAdd_unknown_state:
  "feeds (state d) (author m) = None \<Longrightarrow> validate_appendOOO E (state d) hmac_key m = Inr s \<Longrightarrow>
   state (fst (validateAndAdd E d m)) = s"
  by (auto simp: validateAndAdd_def Let_def add_keeps_state split: sum.splits option.splits)

lemma validateAndAdd_unknown_thrown:
  "feeds (state d) (author m) = None \<Longrightarrow> isl (validate_appendOOO E (state d) hmac_key m) \<Longrightarrow>
   fst (validateAndAdd E d m) = d \<and> isl (snd (validateAndAdd E d m))"
  by (auto simp: validateAndAdd_def Let_def split: sum.splits)

lemma validateAndAdd_keeps_known:
  assumes "validate_append E = append_spec verify ident"
    and "validate_appendOOO E = appendOOO_spec verify wellformed ident"
    and "feeds (state d) a \<noteq> None"
  shows "feeds (state (fst (validateAndAdd E d m))) a \<noteq> None"
proof -
  from validateAndAdd_state_cases [of E d m] show ?thesis
  proof
    assume "state (fst (validateAndAdd E d m)) = state d"
    then show ?thesis using assms(3) by simp
  next
    assume r: "(if feeds (state d) (author m) = None
       then validate_appendOOO E (state d) hmac_key m
       else validate_append E (state d) hmac_key m)
      = Inr (state (fst (validateAndAdd E d m)))"
    show ?thesis
    proof (cases "feeds (state d) (author m) = None")
      case True
      then have "appendOOO_spec verify wellformed ident (state d) hmac_key m
                 = Inr (state (fst (validateAndAdd E d m)))"
        using r assms(2) by simp
      then show ?thesis using assms(3) by (rule appendOOO_spec_known)
    next
      case False
      then have "append_spec verify ident (state d) hmac_key m
                 = Inr (state (fst (validateAndAdd E d m)))"
        using r assms(1) by auto
      then show ?thesis using assms(3) by (rule append_spec_known)
    qed
  qed
qed

lemma validateAndAdd_all_keeps_known:
  assumes "validate_append E = append_spec verify ident"
    and "validate_appendOOO E = appendOOO_spec verify wellformed ident"
  shows "feeds (state d) a \<noteq> None \<Longrightarrow>
         feeds (state (foldl (\<lambda>d m. fst (validateAndAdd E d m)) d ms)) a \<noteq> None"
proof (induction ms arbitrary: d)
  case Nil
  then show ?case by simp
next
  case (Cons m ms)
  have "feeds (state (fst (validateAndAdd E d m))) a \<noteq> None"
    using assms Cons.prems by (rule validateAndAdd_keeps_known)
  then show ?case using Cons.IH [of "fst (validateAndAdd E d m)"] by simp
qed

text \<open>
  C4 (as amended). \<^verbatim>\<open>validateAndAdd\<close> keeps as the shared state whatever the
  validation returns. With the validation functions of the spec, a message of an unknown
  author that \<^verbatim>\<open>appendOOO\<close> admits makes the author known, with the message's
  identity, timestamp and sequence as its feed state, whatever the sequence number is; a
  message it rejects changes nothing. A message of a known author goes through the strict
  \<^verbatim>\<open>append\<close> only: the outcome is what the strict path gives and does not depend on
  \<^verbatim>\<open>appendOOO\<close> at all. Over any series of calls of \<^verbatim>\<open>validateAndAdd\<close> a known
  author stays known, so each of its later messages takes the strict path.
\<close>

theorem validateAndAdd_routing:
  assumes "validate_append E = append_spec verify ident"
    and "validate_appendOOO E = appendOOO_spec verify wellformed ident"
  shows "(feeds (state d) (author m) = None \<and> wellformed m \<and> verify hmac_key m \<longrightarrow>
            feeds (state (fst (validateAndAdd E d m))) (author m) =
              Some \<lparr>fid = ident m, ftimestamp = timestamp m, fsequence = sequence m,
                    fqueue = []\<rparr>)
     \<and> (feeds (state d) (author m) = None \<and> \<not> (wellformed m \<and> verify hmac_key m) \<longrightarrow>
            fst (validateAndAdd E d m) = d \<and> isl (snd (validateAndAdd E d m)))
     \<and> (feeds (state d) (author m) \<noteq> None \<longrightarrow>
            validateAndAdd (E\<lparr>validate_appendOOO := f\<rparr>) d m = validateAndAdd E d m
            \<and> validateAndAdd E d m =
                (case validate_append E (state d) hmac_key m of
                   Inl ex \<Rightarrow> (d, Inl ex)
                 | Inr s \<Rightarrow>
                     (case error s of
                        Some e \<Rightarrow> (d\<lparr>state := s\<rparr>, Inl e)
                      | None \<Rightarrow> add E (d\<lparr>state := s\<rparr>) m)))
     \<and> (feeds (state d) a \<noteq> None \<longrightarrow>
            feeds (state (foldl (\<lambda>d m. fst (validateAndAdd E d m)) d ms)) a \<noteq> None)"
proof -
  have a: "feeds (state d) (author m) = None \<and> wellformed m \<and> verify hmac_key m \<longrightarrow>
            feeds (state (fst (validateAndAdd E d m))) (author m) =
              Some \<lparr>fid = ident m, ftimestamp = timestamp m, fsequence = sequence m,
                    fqueue = []\<rparr>"
  proof
    assume h: "feeds (state d) (author m) = None \<and> wellformed m \<and> verify hmac_key m"
    let ?s = "(state d)\<lparr>feeds := (feeds (state d))(author m \<mapsto>
              \<lparr>fid = ident m, ftimestamp = timestamp m, fsequence = sequence m,
               fqueue = []\<rparr>)\<rparr>"
    have "validate_appendOOO E (state d) hmac_key m = Inr ?s"
      using h assms(2) by (simp add: appendOOO_spec_admits)
    then have "state (fst (validateAndAdd E d m)) = ?s"
      using h validateAndAdd_unknown_state by blast
    then show "feeds (state (fst (validateAndAdd E d m))) (author m) =
              Some \<lparr>fid = ident m, ftimestamp = timestamp m, fsequence = sequence m,
                    fqueue = []\<rparr>"
      by simp
  qed
  have b: "feeds (state d) (author m) = None \<and> \<not> (wellformed m \<and> verify hmac_key m) \<longrightarrow>
            fst (validateAndAdd E d m) = d \<and> isl (snd (validateAndAdd E d m))"
  proof
    assume h: "feeds (state d) (author m) = None \<and> \<not> (wellformed m \<and> verify hmac_key m)"
    then have "isl (validate_appendOOO E (state d) hmac_key m)"
      using assms(2) appendOOO_spec_rejects [of wellformed m verify hmac_key ident "state d"]
      by simp
    then show "fst (validateAndAdd E d m) = d \<and> isl (snd (validateAndAdd E d m))"
      using h validateAndAdd_unknown_thrown by blast
  qed
  have c1: "feeds (state d) (author m) \<noteq> None \<longrightarrow>
            validateAndAdd (E\<lparr>validate_appendOOO := f\<rparr>) d m = validateAndAdd E d m"
    by (simp add: validateAndAdd_def split: sum.splits option.splits)
  have c2: "feeds (state d) (author m) \<noteq> None \<longrightarrow>
            validateAndAdd E d m =
                (case validate_append E (state d) hmac_key m of
                   Inl ex \<Rightarrow> (d, Inl ex)
                 | Inr s \<Rightarrow>
                     (case error s of
                        Some e \<Rightarrow> (d\<lparr>state := s\<rparr>, Inl e)
                      | None \<Rightarrow> add E (d\<lparr>state := s\<rparr>) m))"
    by (auto simp: validateAndAdd_known)
  have e: "feeds (state d) a \<noteq> None \<longrightarrow>
            feeds (state (foldl (\<lambda>d m. fst (validateAndAdd E d m)) d ms)) a \<noteq> None"
    using validateAndAdd_all_keeps_known [OF assms] by blast
  from a b c1 c2 e show ?thesis by blast
qed

theorem validateAndAdd_routing_witness:
  "validate_append env1 = append_spec verify1 (\<lambda>m. CHR ''%'' # signature m)
   \<and> validate_appendOOO env1
       = appendOOO_spec verify1 (\<lambda>m. True) (\<lambda>m. CHR ''%'' # signature m)
   \<and> feeds (state db1) (author msg_bob) = None \<and> verify1 hmac_key msg_bob
   \<and> feeds (state (fst (validateAndAdd env1 db1 msg_bob))) (author msg_bob)
       = Some \<lparr>fid = ''%sigb'', ftimestamp = 7, fsequence = 5, fqueue = []\<rparr>
   \<and> feeds (state db1) (author msg2) \<noteq> None
   \<and> validateAndAdd (env1\<lparr>validate_appendOOO := (\<lambda>s hk m. Inl TypeError)\<rparr>) db1 msg2
       = validateAndAdd env1 db1 msg2
   \<and> snd (validateAndAdd env1 db1 msg2) = Inr (Stored \<lparr>key = ''%sig2'', kvalue = msg2\<rparr>)
   \<and> feeds (state (foldl (\<lambda>d m. fst (validateAndAdd env1 d m)) db1 [msg_bob, msg2]))
         ''@alice'' \<noteq> None"
proof -
  have v: "validate_append env1 = append_spec verify1 (\<lambda>m. CHR ''%'' # signature m)"
    by (simp add: env1_def)
  have w: "validate_appendOOO env1
             = appendOOO_spec verify1 (\<lambda>m. True) (\<lambda>m. CHR ''%'' # signature m)"
    by (simp add: env1_def)
  have u: "feeds (state db1) (author msg_bob) = None" by (simp add: db1_def msg_bob_def)
  have g: "verify1 hmac_key msg_bob" by (simp add: verify1_def msg_bob_def)
  have k: "feeds (state db1) (author msg2) \<noteq> None" by (simp add: db1_def msg2_def)
  have al: "feeds (state db1) ''@alice'' \<noteq> None" by (simp add: db1_def)
  have r2: "snd (validateAndAdd env1 db1 msg2) = Inr (Stored \<lparr>key = ''%sig2'', kvalue = msg2\<rparr>)"
    by (simp add: validateAndAdd_def env1_def append_spec_def append_check_def verify1_def
        db1_def msg2_def hmac_key_def add_def getId_def getDataFromKey_def log_add_def Let_def)
  have c1: "feeds (state (fst (validateAndAdd env1 db1 msg_bob))) (author msg_bob)
       = Some \<lparr>fid = CHR ''%'' # signature msg_bob, ftimestamp = timestamp msg_bob,
               fsequence = sequence msg_bob, fqueue = []\<rparr>"
    using u g validateAndAdd_routing [OF v w, of db1 msg_bob "\<lambda>s hk m. Inl TypeError" "''@alice''" "[msg_bob, msg2]"]
    by blast
  have c1': "feeds (state (fst (validateAndAdd env1 db1 msg_bob))) (author msg_bob)
       = Some \<lparr>fid = ''%sigb'', ftimestamp = 7, fsequence = 5, fqueue = []\<rparr>"
    using c1 by (simp add: msg_bob_def)
  have c2: "validateAndAdd (env1\<lparr>validate_appendOOO := (\<lambda>s hk m. Inl TypeError)\<rparr>) db1 msg2
       = validateAndAdd env1 db1 msg2"
    using k validateAndAdd_routing [OF v w, of db1 msg2 "\<lambda>s hk m. Inl TypeError" "''@alice''" "[msg_bob, msg2]"]
    by blast
  have c3: "feeds (state (foldl (\<lambda>d m. fst (validateAndAdd env1 d m)) db1 [msg_bob, msg2]))
         ''@alice'' \<noteq> None"
    using al validateAndAdd_routing [OF v w, of db1 msg2 "\<lambda>s hk m. Inl TypeError" "''@alice''" "[msg_bob, msg2]"]
    by blast
  show ?thesis using v w u g k r2 c1' c2 c3 by blast
qed

text \<open>
  Admitting a message through the out-of-order path does promote: the log holds no
  message of \<^verbatim>\<open>@bob\<close> and the validation state does not know the author; after
  \<^verbatim>\<open>validateAndAdd\<close> of its message with sequence 5 the message is stored and the author
  is known, with latest sequence 5.
\<close>

theorem validateAndAdd_routing_counterexample:
  "feeds (state db1) ''@bob'' = None
   \<and> query_author db1 ''@bob'' = []
   \<and> author msg_bob = ''@bob'' \<and> sequence msg_bob = 5
   \<and> snd (validateAndAdd env1 db1 msg_bob) = Inr (Stored \<lparr>key = ''%sigb'', kvalue = msg_bob\<rparr>)
   \<and> feeds (state (fst (validateAndAdd env1 db1 msg_bob))) ''@bob''
       = Some \<lparr>fid = ''%sigb'', ftimestamp = 7, fsequence = 5, fqueue = []\<rparr>"
  by (simp add: validateAndAdd_def env1_def appendOOO_spec_def verify1_def db1_def
      msg_bob_def msg1_def hmac_key_def add_def getId_def getDataFromKey_def log_add_def
      query_author_def Let_def)

subsection \<open>\<^verbatim>\<open>addTransaction\<close>\<close>

lemma validate_ordered_append:
  "validate_ordered E s (pre @ ms) =
     (case validate_ordered E s pre of Inl e \<Rightarrow> Inl e | Inr s' \<Rightarrow> validate_ordered E s' ms)"
  by (induction pre arbitrary: s) (auto split: sum.splits option.splits)

lemma validate_ordered_fails_iff:
  "validate_ordered E s ms = Inl e \<longleftrightarrow>
     (\<exists>pre m post s'. ms = pre @ m # post \<and> validate_ordered E s pre = Inr s'
        \<and> fails_at E s' m e)"
proof (induction ms arbitrary: s)
  case Nil
  then show ?case by simp
next
  case (Cons m ms)
  show ?case
  proof
    assume f: "validate_ordered E s (m # ms) = Inl e"
    show "\<exists>pre m' post s'. m # ms = pre @ m' # post \<and> validate_ordered E s pre = Inr s'
        \<and> fails_at E s' m' e"
    proof (cases "fails_at E s m e")
      case True
      then have "m # ms = [] @ m # ms \<and> validate_ordered E s [] = Inr s \<and> fails_at E s m e"
        by simp
      then show ?thesis by blast
    next
      case False
      then obtain s1 where s1: "validate_append E s hmac_key m = Inr s1" "error s1 = None"
        "validate_ordered E s1 ms = Inl e"
        using f by (auto simp: fails_at_def split: sum.splits option.splits)
      then obtain pre m' post s' where
        p: "ms = pre @ m' # post" "validate_ordered E s1 pre = Inr s'" "fails_at E s' m' e"
        using Cons.IH [of s1] by blast
      have "m # ms = (m # pre) @ m' # post \<and> validate_ordered E s (m # pre) = Inr s'
            \<and> fails_at E s' m' e"
        using p s1 by simp
      then show ?thesis by blast
    qed
  next
    assume "\<exists>pre m' post s'. m # ms = pre @ m' # post \<and> validate_ordered E s pre = Inr s'
        \<and> fails_at E s' m' e"
    then obtain pre m' post s' where
      p: "m # ms = pre @ m' # post" "validate_ordered E s pre = Inr s'" "fails_at E s' m' e"
      by blast
    have "validate_ordered E s' (m' # post) = Inl e"
      using p(3) by (auto simp: fails_at_def split: sum.splits)
    then show "validate_ordered E s (m # ms) = Inl e"
      using p(1,2) validate_ordered_append [of E s pre "m' # post"] by simp
  qed
qed

lemma validate_ooo_fails_iff:
  "validate_ooo E ms \<noteq> None \<longleftrightarrow> (\<exists>m \<in> set ms. validate_one_ooo E m \<noteq> None)"
  by (induction ms) (auto split: option.splits)

text \<open>
  C1. \<^verbatim>\<open>addTransaction\<close> is all-or-none. When the validation of the ordered batch
  fails, or that of the out-of-order batch does, the result is the error and the
  database, the log included, is as it was. When both succeed, every message of both
  batches is appended to the log, in order, and the live validation state becomes the
  scratch state. The ordered batch fails exactly when some message of it fails against
  the state its predecessors have led to, and the out-of-order batch exactly when one of
  its messages fails on its own.
\<close>

theorem addTransaction_all_or_none:
  "(validate_ordered E (state d) os = Inl e \<longrightarrow> addTransaction E d os qs = (d, Inl e))
   \<and> (validate_ordered E (state d) os = Inr s \<and> validate_ooo E qs = Some e \<longrightarrow>
        addTransaction E d os qs = (d, Inl e))
   \<and> (validate_ordered E (state d) os = Inr s \<and> validate_ooo E qs = None \<longrightarrow>
        addTransaction E d os qs =
          (d\<lparr>log := log d @ map Some (map (to_record E) (os @ qs)), state := s\<rparr>,
           Inr (map (to_record E) (os @ qs)))
        \<and> length (log (fst (addTransaction E d os qs)))
            = length (log d) + length os + length qs)
   \<and> ((\<exists>e'. validate_ordered E (state d) os = Inl e') \<longleftrightarrow>
        (\<exists>pre m post s' e'. os = pre @ m # post \<and> validate_ordered E (state d) pre = Inr s'
           \<and> fails_at E s' m e'))
   \<and> (validate_ooo E qs \<noteq> None \<longleftrightarrow> (\<exists>m \<in> set qs. validate_one_ooo E m \<noteq> None))
   \<and> (isl (snd (addTransaction E d os qs)) \<longrightarrow> fst (addTransaction E d os qs) = d)"
proof -
  have a: "validate_ordered E (state d) os = Inl e \<longrightarrow> addTransaction E d os qs = (d, Inl e)"
    by (simp add: addTransaction_def)
  have b: "validate_ordered E (state d) os = Inr s \<and> validate_ooo E qs = Some e \<longrightarrow>
        addTransaction E d os qs = (d, Inl e)"
    by (simp add: addTransaction_def)
  have c: "validate_ordered E (state d) os = Inr s \<and> validate_ooo E qs = None \<longrightarrow>
        addTransaction E d os qs =
          (d\<lparr>log := log d @ map Some (map (to_record E) (os @ qs)), state := s\<rparr>,
           Inr (map (to_record E) (os @ qs)))
        \<and> length (log (fst (addTransaction E d os qs)))
            = length (log d) + length os + length qs"
    by (simp add: addTransaction_def Let_def)
  have f: "(\<exists>e'. validate_ordered E (state d) os = Inl e') \<longleftrightarrow>
        (\<exists>pre m post s' e'. os = pre @ m # post \<and> validate_ordered E (state d) pre = Inr s'
           \<and> fails_at E s' m e')"
    using validate_ordered_fails_iff [of E "state d" os] by blast
  have g: "validate_ooo E qs \<noteq> None \<longleftrightarrow> (\<exists>m \<in> set qs. validate_one_ooo E m \<noteq> None)"
    by (rule validate_ooo_fails_iff)
  have h: "isl (snd (addTransaction E d os qs)) \<longrightarrow> fst (addTransaction E d os qs) = d"
    by (auto simp: addTransaction_def Let_def split: sum.splits option.splits)
  from a b c f g h show ?thesis by blast
qed


theorem addTransaction_all_or_none_witness:
  "validate_ordered env1 (state db1) [msg2, msg2] = Inl SequenceGap
   \<and> addTransaction env1 db1 [msg2, msg2] [msg_bob] = (db1, Inl SequenceGap)
   \<and> validate_ooo env1 [msg_bob\<lparr>signature := ''bad''\<rparr>] = Some BadSignature
   \<and> addTransaction env1 db1 [msg2] [msg_bob\<lparr>signature := ''bad''\<rparr>] = (db1, Inl BadSignature)
   \<and> validate_ooo env1 [msg_bob] = None
   \<and> log (fst (addTransaction env1 db1 [msg2] [msg_bob]))
       = log db1 @ [Some (to_record env1 msg2), Some (to_record env1 msg_bob)]"
proof -
  let ?s2 = "(state db1)\<lparr>feeds := (feeds (state db1))(''@alice'' \<mapsto>
               \<lparr>fid = ''%sig2'', ftimestamp = 20, fsequence = 2, fqueue = []\<rparr>)\<rparr>"
  have o1: "validate_ordered env1 (state db1) [msg2] = Inr ?s2"
    by (simp add: env1_def append_spec_def append_check_def verify1_def db1_def msg2_def
        hmac_key_def)
  have o2: "validate_ordered env1 (state db1) [msg2, msg2] = Inl SequenceGap"
    by (simp add: env1_def append_spec_def append_check_def verify1_def db1_def msg2_def
        hmac_key_def)
  have q1: "validate_ooo env1 [msg_bob] = None"
    by (simp add: validate_one_ooo_def env1_def appendOOO_spec_def verify1_def msg_bob_def
        initial_def hmac_key_def)
  have q2: "validate_ooo env1 [msg_bob\<lparr>signature := ''bad''\<rparr>] = Some BadSignature"
    by (simp add: validate_one_ooo_def env1_def appendOOO_spec_def verify1_def msg_bob_def
        initial_def hmac_key_def)
  have c1: "addTransaction env1 db1 [msg2, msg2] [msg_bob] = (db1, Inl SequenceGap)"
    using o2 addTransaction_all_or_none [of env1 db1 "[msg2, msg2]" SequenceGap "[msg_bob]" ?s2]
    by blast
  have c2: "addTransaction env1 db1 [msg2] [msg_bob\<lparr>signature := ''bad''\<rparr>] = (db1, Inl BadSignature)"
    using o1 q2 addTransaction_all_or_none [of env1 db1 "[msg2]" BadSignature "[msg_bob\<lparr>signature := ''bad''\<rparr>]" ?s2]
    by blast
  have "addTransaction env1 db1 [msg2] [msg_bob] =
          (db1\<lparr>log := log db1 @ map Some (map (to_record env1) ([msg2] @ [msg_bob])), state := ?s2\<rparr>,
           Inr (map (to_record env1) ([msg2] @ [msg_bob])))"
    using o1 q1 addTransaction_all_or_none [of env1 db1 "[msg2]" BadSignature "[msg_bob]" ?s2]
    by blast
  then have c3: "log (fst (addTransaction env1 db1 [msg2] [msg_bob]))
       = log db1 @ [Some (to_record env1 msg2), Some (to_record env1 msg_bob)]"
    by simp
  show ?thesis using o2 q1 q2 c1 c2 c3 by blast
qed

end
